theory Spec2Isabelle
  imports Complex_Main "HOL-Library.Char_ord" "HOL-Library.List_Lexorder"
begin

section \<open>Python values and the operations the program applies to them\<close>

text \<open>
  Every collection handed to \<open>gather_prompt_usages\<close> is what \<open>orjson.loads\<close> returned (or
  \<open>None\<close>), so a value is one of Python's \<open>None\<close>, \<open>bool\<close>, \<open>int\<close>, \<open>float\<close>, \<open>str\<close>,
  \<open>list\<close> and \<open>dict\<close> with \<open>str\<close> keys. A \<open>dict\<close> is an association list in insertion
  order (its keys are distinct in Python; lookup takes the first binding). A \<open>char\<close> stands
  for one code point below 256. The program looks at a \<open>float\<close> through \<open>bool(x)\<close>, through
  \<open>==\<close> with other numbers and through \<open>str(x)\<close>: \<open>JFloat\<close> carries its value, a rational,
  and the text \<open>str(x)\<close> gives.
\<close>

datatype json =
    JNull
  | JBool bool
  | JInt int
  | JFloat rat string
  | JStr string
  | JArr "json list"
  | JObj "(string \<times> json) list"

datatype error =
    AttributeError | TypeError | ValueError | UnicodeEncodeError | OSError | HTTPError
  | JSONDecodeError

text \<open>
  A call either raises (\<open>Inl\<close>) or returns (\<open>Inr\<close>); \<open>bindE\<close> runs one call after
  another and stops at the first that raises.
\<close>

definition bindE :: "'e + 'a \<Rightarrow> ('a \<Rightarrow> 'e + 'b) \<Rightarrow> 'e + 'b" where
  "bindE m f = (case m of Inl e \<Rightarrow> Inl e | Inr x \<Rightarrow> f x)"

text \<open>A \<open>for\<close> loop whose body updates the state \<open>s\<close> and may raise.\<close>

fun foldE :: "('s \<Rightarrow> 'a \<Rightarrow> 'e + 's) \<Rightarrow> 's \<Rightarrow> 'a list \<Rightarrow> 'e + 's" where
  "foldE f s [] = Inr s"
| "foldE f s (x # xs) = (case f s x of Inl e \<Rightarrow> Inl e | Inr s' \<Rightarrow> foldE f s' xs)"

text \<open>Truth value of an object, as \<open>if x\<close>, \<open>x and y\<close> and \<open>x or y\<close> test it.\<close>

fun truthy :: "json \<Rightarrow> bool" where
  "truthy JNull = False"
| "truthy (JBool b) = b"
| "truthy (JInt i) = (i \<noteq> 0)"
| "truthy (JFloat q txt) = (q \<noteq> 0)"
| "truthy (JStr s) = (s \<noteq> [])"
| "truthy (JArr xs) = (xs \<noteq> [])"
| "truthy (JObj kvs) = (kvs \<noteq> [])"

definition py_or :: "json \<Rightarrow> json \<Rightarrow> json" where
  "py_or x d = (if truthy x then x else d)"

text \<open>\<open>x.get(k, d)\<close>: only a \<open>dict\<close> has the method.\<close>

fun dict_get :: "json \<Rightarrow> string \<Rightarrow> json \<Rightarrow> error + json" where
  "dict_get (JObj kvs) k d = Inr (case map_of kvs k of Some v \<Rightarrow> v | None \<Rightarrow> d)"
| "dict_get x k d = Inl AttributeError"

text \<open>\<open>x.items()\<close>.\<close>

fun dict_items :: "json \<Rightarrow> error + (string \<times> json) list" where
  "dict_items (JObj kvs) = Inr kvs"
| "dict_items x = Inl AttributeError"

text \<open>
  \<open>for y in x\<close>: a list gives its elements, a string its characters, a dict its keys;
  nothing else is iterable.
\<close>

fun py_iter :: "json \<Rightarrow> error + json list" where
  "py_iter (JArr xs) = Inr xs"
| "py_iter (JStr s) = Inr (map (\<lambda>c. JStr [c]) s)"
| "py_iter (JObj kvs) = Inr (map (\<lambda>kv. JStr (fst kv)) kvs)"
| "py_iter x = Inl TypeError"

text \<open>
  \<open>x in s\<close> for a set (or the keys of a dict) of strings: a list or a dict is unhashable,
  any other value that is not a string is hashable and equal to no string.
\<close>

fun py_in :: "json \<Rightarrow> string set \<Rightarrow> error + bool" where
  "py_in (JStr s) S = Inr (s \<in> S)"
| "py_in (JArr xs) S = Inl TypeError"
| "py_in (JObj kvs) S = Inl TypeError"
| "py_in x S = Inr False"

subsection \<open>\<open>str(x)\<close>, as an f-string formats a value\<close>

fun dec :: "nat \<Rightarrow> string" where
  "dec n = (if n < 10 then [char_of (48 + n)] else dec (n div 10) @ [char_of (48 + n mod 10)])"

declare dec.simps [simp del]

definition hex_digit :: "nat \<Rightarrow> char" where
  "hex_digit n = (if n < 10 then char_of (48 + n) else char_of (87 + n))"

definition repr_char :: "char \<Rightarrow> char \<Rightarrow> string" where
  "repr_char quote c =
     (let n = (of_char c :: nat) in
      if c = quote \<or> c = CHR 0x5C then [CHR 0x5C, c]
      else if c = CHR 0x09 then [CHR 0x5C, CHR ''t'']
      else if c = CHR 0x0A then [CHR 0x5C, CHR ''n'']
      else if c = CHR 0x0D then [CHR 0x5C, CHR ''r'']
      else if n < 32 \<or> n = 127 \<or> (128 \<le> n \<and> n \<le> 160) \<or> n = 173
        then [CHR 0x5C, CHR ''x'', hex_digit (n div 16), hex_digit (n mod 16)]
      else [c])"

definition repr_str :: "string \<Rightarrow> string" where
  "repr_str s =
     (let quote = (if CHR 0x27 \<in> set s \<and> CHR 0x22 \<notin> set s then CHR 0x22 else CHR 0x27)
      in [quote] @ concat (map (repr_char quote) s) @ [quote])"

fun join :: "string \<Rightarrow> string list \<Rightarrow> string" where
  "join sep [] = []"
| "join sep [x] = x"
| "join sep (x # y # ys) = x @ sep @ join sep (y # ys)"

fun py_repr :: "json \<Rightarrow> string" where
  "py_repr JNull = ''None''"
| "py_repr (JBool b) = (if b then ''True'' else ''False'')"
| "py_repr (JInt i) = (if i < 0 then ''-'' @ dec (nat (- i)) else dec (nat i))"
| "py_repr (JFloat q txt) = txt"
| "py_repr (JStr s) = repr_str s"
| "py_repr (JArr xs) = ''['' @ join '', '' (map py_repr xs) @ '']''"
| "py_repr (JObj kvs) =
     ''{'' @ join '', '' (map (\<lambda>kv. repr_str (fst kv) @ '': '' @ py_repr (snd kv)) kvs) @ ''}''"

fun py_str :: "json \<Rightarrow> string" where
  "py_str (JStr s) = s"
| "py_str x = py_repr x"

section \<open>The usage resolver: \<open>gather_prompt_usages\<close>\<close>

text \<open>
  The local dict \<open>usages\<close>, from filename to the list of descriptions. The known filenames
  \<open>prompt_filenames\<close> are a set of strings.
\<close>

type_synonym usages = "string \<rightharpoonup> string list"

text \<open>
  The closure \<open>add(fn, text)\<close>: \<open>if fn in usages: usages[fn].append(text)\<close>. The keys of
  \<open>usages\<close> are strings, so the membership test hashes \<open>fn\<close> as \<open>py_in\<close> does.
\<close>

definition add :: "usages \<Rightarrow> json \<Rightarrow> string \<Rightarrow> error + usages" where
  "add u fn text =
     (case fn of
        JStr s \<Rightarrow> Inr (case u s of Some l \<Rightarrow> u(s \<mapsto> l @ [text]) | None \<Rightarrow> u)
      | JArr xs \<Rightarrow> Inl TypeError
      | JObj kvs \<Rightarrow> Inl TypeError
      | _ \<Rightarrow> Inr u)"

text \<open>
  The guard written at every extraction site,
  \<open>if value and value in prompt_filenames: add(value, f"...")\<close>;
  the f-string is evaluated only when the guard holds.
\<close>

definition add_if_known :: "string set \<Rightarrow> json \<Rightarrow> error + string \<Rightarrow> usages \<Rightarrow> error + usages" where
  "add_if_known P v text u =
     (if truthy v
      then bindE (py_in v P) (\<lambda>known.
             if known then bindE text (\<lambda>t. add u v t) else Inr u)
      else Inr u)"

text \<open>\<open>f"<prefix>{item.get('Number')} {item.get('Name')}"\<close>.\<close>

definition describe :: "string \<Rightarrow> json \<Rightarrow> error + string" where
  "describe prefix item =
     bindE (dict_get item ''Number'' JNull) (\<lambda>number.
     bindE (dict_get item ''Name'' JNull) (\<lambda>name.
       Inr (prefix @ py_str number @ '' '' @ py_str name)))"

text \<open>Body of the loop over the receptionists (lines 38 to 45).\<close>

definition forward_step :: "string set \<Rightarrow> json \<Rightarrow> usages \<Rightarrow> json \<Rightarrow> error + usages" where
  "forward_step P item u forward =
     bindE (dict_get forward ''CustomData'' JNull) (\<lambda>custom_data.
       add_if_known P custom_data (describe ''Receptionist (forward key): '' item) u)"

definition receptionist_step :: "string set \<Rightarrow> usages \<Rightarrow> json \<Rightarrow> error + usages" where
  "receptionist_step P u item =
     bindE (dict_get item ''PromptFilename'' JNull) (\<lambda>filename.
     bindE (add_if_known P filename (describe ''Receptionist: '' item) u) (\<lambda>u1.
     bindE (dict_get item ''Forwards'' (JArr [])) (\<lambda>fw.
     bindE (py_iter fw) (\<lambda>forwards.
       foldE (forward_step P item) u1 forwards))))"

text \<open>Body of the loop over the queues (lines 52 to 61).\<close>

definition queue_file_keys :: "string list" where
  "queue_file_keys = [''IntroFile'', ''OnHoldFile'', ''GreetingFile'']"

definition route_keys :: "string list" where
  "route_keys = [''OutOfOfficeRoute'', ''BreakRoute'', ''HolidaysRoute'']"

definition file_key_step :: "string set \<Rightarrow> json \<Rightarrow> usages \<Rightarrow> string \<Rightarrow> error + usages" where
  "file_key_step P item u key =
     bindE (dict_get item key JNull) (\<lambda>value.
       add_if_known P value (describe (''Queue '' @ key @ '': '') item) u)"

text \<open>
  The route lookup shared by queues and groups:
  \<open>route = item.get(rkey, {}) or {}; prompt = route.get("Prompt")\<close>.
\<close>

definition route_step :: "string \<Rightarrow> string set \<Rightarrow> json \<Rightarrow> usages \<Rightarrow> string \<Rightarrow> error + usages" where
  "route_step kind P item u rkey =
     bindE (dict_get item rkey (JObj [])) (\<lambda>r.
     bindE (dict_get (py_or r (JObj [])) ''Prompt'' JNull) (\<lambda>prompt.
       add_if_known P prompt (describe (kind @ '' route '' @ rkey @ '': '') item) u))"

definition queue_step :: "string set \<Rightarrow> usages \<Rightarrow> json \<Rightarrow> error + usages" where
  "queue_step P u item =
     bindE (foldE (file_key_step P item) u queue_file_keys) (\<lambda>u1.
       foldE (route_step ''Queue'' P item) u1 route_keys)"

text \<open>Body of the loop over the groups (lines 66 to 70).\<close>

definition group_route_keys :: "string list" where
  "group_route_keys = [''OfficeRoute'', ''OutOfOfficeRoute'', ''BreakRoute'', ''HolidaysRoute'']"

definition group_step :: "string set \<Rightarrow> usages \<Rightarrow> json \<Rightarrow> error + usages" where
  "group_step P u item = foldE (route_step ''Group'' P item) u group_route_keys"

text \<open>Body of the loop over \<open>music_on_hold_settings.items()\<close> (lines 74 and 75).\<close>

definition moh_step :: "string set \<Rightarrow> usages \<Rightarrow> string \<times> json \<Rightarrow> error + usages" where
  "moh_step P u kv =
     add_if_known P (snd kv) (Inr (''MusicOnHold setting ('' @ fst kv @ '')'')) u"

text \<open>\<open>for item in (collection or {}).get("value", [])\<close> with the given loop body.\<close>

definition scan_collection :: "('s \<Rightarrow> json \<Rightarrow> error + 's) \<Rightarrow> json \<Rightarrow> 's \<Rightarrow> error + 's" where
  "scan_collection body collection u =
     bindE (dict_get (py_or collection (JObj [])) ''value'' (JArr [])) (\<lambda>v.
     bindE (py_iter v) (\<lambda>items.
       foldE body u items))"

text \<open>The two settings records with one field (lines 78 to 85).\<close>

definition scan_setting :: "string set \<Rightarrow> string \<Rightarrow> json \<Rightarrow> usages \<Rightarrow> error + usages" where
  "scan_setting P text settings u =
     bindE (dict_get (py_or settings (JObj [])) ''MusicOnHold'' JNull) (\<lambda>moh.
       add_if_known P moh (Inr text) u)"

definition gather_prompt_usages ::
  "string set \<Rightarrow> json \<Rightarrow> json \<Rightarrow> json \<Rightarrow> json \<Rightarrow> json \<Rightarrow> json \<Rightarrow> error + usages" where
  "gather_prompt_usages prompt_filenames receptionists queues groups
       music_on_hold_settings conference_settings call_parking_settings =
     bindE (scan_collection (receptionist_step prompt_filenames) receptionists
              (\<lambda>fn. if fn \<in> prompt_filenames then Some [] else None)) (\<lambda>u1.
     bindE (scan_collection (queue_step prompt_filenames) queues u1) (\<lambda>u2.
     bindE (scan_collection (group_step prompt_filenames) groups u2) (\<lambda>u3.
     bindE (dict_items (py_or music_on_hold_settings (JObj []))) (\<lambda>items.
     bindE (foldE (moh_step prompt_filenames) u3 items) (\<lambda>u4.
     bindE (scan_setting prompt_filenames ''Conference: MusicOnHold'' conference_settings u4) (\<lambda>u5.
     bindE (scan_setting prompt_filenames ''CallParking: MusicOnHold'' call_parking_settings u5) (\<lambda>u6.
       Inr (\<lambda>k. case u6 k of Some v \<Rightarrow> (if v \<noteq> [] then Some v else None) | None \<Rightarrow> None))))))))"

section \<open>The references of a snapshot, as the specification lists them\<close>

text \<open>
  The specification describes the result without the control flow of the code: every
  collection has entities, every entity has filename-bearing fields, and each field is a
  reference, the pair of the field's value and the description recorded for it. Field access
  is a projection that never fails: an absent field, and a field of something that is no
  record, is null; something that is no list has no elements.
\<close>

definition field :: "json \<Rightarrow> string \<Rightarrow> json" where
  "field x k =
     (case x of
        JObj kvs \<Rightarrow> (case map_of kvs k of Some v \<Rightarrow> v | None \<Rightarrow> JNull)
      | _ \<Rightarrow> JNull)"

definition elements :: "json \<Rightarrow> json list" where
  "elements x = (case x of JArr xs \<Rightarrow> xs | _ \<Rightarrow> [])"

definition entities :: "json \<Rightarrow> json list" where
  "entities collection = elements (field collection ''value'')"

definition label :: "json \<Rightarrow> string" where
  "label item = py_str (field item ''Number'') @ '' '' @ py_str (field item ''Name'')"

type_synonym reference = "json \<times> string"

definition receptionist_refs :: "json \<Rightarrow> reference list" where
  "receptionist_refs item =
     (field item ''PromptFilename'', ''Receptionist: '' @ label item) #
     map (\<lambda>forward. (field forward ''CustomData'', ''Receptionist (forward key): '' @ label item))
       (elements (field item ''Forwards''))"

definition route_refs :: "string \<Rightarrow> string list \<Rightarrow> json \<Rightarrow> reference list" where
  "route_refs kind rkeys item =
     map (\<lambda>rkey. (field (field item rkey) ''Prompt'',
                  kind @ '' route '' @ rkey @ '': '' @ label item)) rkeys"

definition queue_refs :: "json \<Rightarrow> reference list" where
  "queue_refs item =
     map (\<lambda>key. (field item key, ''Queue '' @ key @ '': '' @ label item))
       [''IntroFile'', ''OnHoldFile'', ''GreetingFile''] @
     route_refs ''Queue'' [''OutOfOfficeRoute'', ''BreakRoute'', ''HolidaysRoute''] item"

definition group_refs :: "json \<Rightarrow> reference list" where
  "group_refs item =
     route_refs ''Group'' [''OfficeRoute'', ''OutOfOfficeRoute'', ''BreakRoute'', ''HolidaysRoute''] item"

definition moh_refs :: "json \<Rightarrow> reference list" where
  "moh_refs settings =
     (case settings of
        JObj kvs \<Rightarrow> map (\<lambda>kv. (snd kv, ''MusicOnHold setting ('' @ fst kv @ '')'')) kvs
      | _ \<Rightarrow> [])"

definition conference_refs :: "json \<Rightarrow> reference list" where
  "conference_refs settings = [(field settings ''MusicOnHold'', ''Conference: MusicOnHold'')]"

definition call_parking_refs :: "json \<Rightarrow> reference list" where
  "call_parking_refs settings = [(field settings ''MusicOnHold'', ''CallParking: MusicOnHold'')]"

text \<open>All references of a snapshot, in scan order.\<close>

definition references :: "json \<Rightarrow> json \<Rightarrow> json \<Rightarrow> json \<Rightarrow> json \<Rightarrow> json \<Rightarrow> reference list" where
  "references receptionists queues groups music_on_hold_settings conference_settings
       call_parking_settings =
     concat (map receptionist_refs (entities receptionists)) @
     concat (map queue_refs (entities queues)) @
     concat (map group_refs (entities groups)) @
     moh_refs music_on_hold_settings @
     conference_refs conference_settings @
     call_parking_refs call_parking_settings"

text \<open>
  A reference matches the filename \<open>fn\<close> when its field holds the string \<open>fn\<close>, non-empty
  and one of the known filenames.
\<close>

definition matches :: "string set \<Rightarrow> string \<Rightarrow> reference \<Rightarrow> bool" where
  "matches P fn ref = (fst ref = JStr fn \<and> fn \<noteq> [] \<and> fn \<in> P)"

definition usage_list :: "string set \<Rightarrow> reference list \<Rightarrow> string \<Rightarrow> string list" where
  "usage_list P refs fn = map snd (filter (matches P fn) refs)"

definition usage_map :: "string set \<Rightarrow> reference list \<Rightarrow> usages" where
  "usage_map P refs =
     (\<lambda>fn. if usage_list P refs fn = [] then None else Some (usage_list P refs fn))"

text \<open>The dict \<open>usages\<close> after the references \<open>refs\<close> have been scanned.\<close>

definition scanned :: "string set \<Rightarrow> reference list \<Rightarrow> usages" where
  "scanned P refs = (\<lambda>fn. if fn \<in> P then Some (usage_list P refs fn) else None)"

section \<open>Snapshots the resolver accepts\<close>

text \<open>
  A sufficient shape for the resolver to return: a collection is missing (any false value,
  as \<open>None\<close> or \<open>{}\<close>) or a record whose \<open>value\<close>, when present, is a list of records; a
  filename-bearing field holds anything but a non-empty list or record (those are
  unhashable); a route is missing or a record; \<open>Forwards\<close>, when present, is a list of
  records.
\<close>

definition field_ok :: "json \<Rightarrow> bool" where
  "field_ok v = (case v of JArr xs \<Rightarrow> xs = [] | JObj kvs \<Rightarrow> kvs = [] | _ \<Rightarrow> True)"

definition is_record :: "json \<Rightarrow> bool" where
  "is_record x = (case x of JObj kvs \<Rightarrow> True | _ \<Rightarrow> False)"

definition forward_ok :: "json \<Rightarrow> bool" where
  "forward_ok forward = (is_record forward \<and> field_ok (field forward ''CustomData''))"

definition forwards_ok :: "json \<Rightarrow> bool" where
  "forwards_ok item =
     (case item of
        JObj kvs \<Rightarrow>
          (case map_of kvs ''Forwards'' of
             None \<Rightarrow> True
           | Some (JArr fs) \<Rightarrow> list_all forward_ok fs
           | Some _ \<Rightarrow> False)
      | _ \<Rightarrow> False)"

definition route_ok :: "json \<Rightarrow> bool" where
  "route_ok r = (\<not> truthy r \<or> (is_record r \<and> field_ok (field r ''Prompt'')))"

definition receptionist_ok :: "json \<Rightarrow> bool" where
  "receptionist_ok item =
     (is_record item \<and> field_ok (field item ''PromptFilename'') \<and> forwards_ok item)"

definition queue_ok :: "json \<Rightarrow> bool" where
  "queue_ok item =
     (is_record item \<and>
      list_all (\<lambda>key. field_ok (field item key)) queue_file_keys \<and>
      list_all (\<lambda>rkey. route_ok (field item rkey)) route_keys)"

definition group_ok :: "json \<Rightarrow> bool" where
  "group_ok item =
     (is_record item \<and> list_all (\<lambda>rkey. route_ok (field item rkey)) group_route_keys)"

definition collection_ok :: "(json \<Rightarrow> bool) \<Rightarrow> json \<Rightarrow> bool" where
  "collection_ok item_ok collection =
     (\<not> truthy collection \<or>
      (case collection of
         JObj kvs \<Rightarrow>
           (case map_of kvs ''value'' of
              None \<Rightarrow> True
            | Some (JArr items) \<Rightarrow> list_all item_ok items
            | Some _ \<Rightarrow> False)
       | _ \<Rightarrow> False))"

definition moh_ok :: "json \<Rightarrow> bool" where
  "moh_ok settings =
     (\<not> truthy settings \<or>
      (case settings of JObj kvs \<Rightarrow> list_all (\<lambda>kv. field_ok (snd kv)) kvs | _ \<Rightarrow> False))"

definition setting_ok :: "json \<Rightarrow> bool" where
  "setting_ok settings =
     (\<not> truthy settings \<or> (is_record settings \<and> field_ok (field settings ''MusicOnHold'')))"

text \<open>An absent collection is \<open>None\<close>; an empty one is \<open>{}\<close> or has no entities.\<close>

definition absent_or_empty :: "json \<Rightarrow> bool" where
  "absent_or_empty collection =
     (collection = JNull \<or> collection = JObj [] \<or> collection = JObj [(''value'', JArr [])])"

subsection \<open>The snapshots of the specification's scenarios\<close>

definition scenario_receptionists :: json where
  "scenario_receptionists =
     JObj [(''value'', JArr [JObj [(''Number'', JStr ''100''), (''Name'', JStr ''Main''),
       (''PromptFilename'', JStr ''welcome.wav''), (''Forwards'', JArr [])]])]"

definition scenario_queues :: json where
  "scenario_queues =
     JObj [(''value'', JArr [JObj [(''Number'', JStr ''800''), (''Name'', JStr ''Support''),
       (''OnHoldFile'', JStr ''hold.wav'')]])]"

definition no_entities :: json where
  "no_entities = JObj [(''value'', JArr [])]"

definition break_route_queues :: json where
  "break_route_queues =
     JObj [(''value'', JArr [JObj [(''Number'', JStr ''800''), (''Name'', JStr ''Support''),
       (''BreakRoute'', JObj [(''Prompt'', JStr ''hold.wav'')])]])]"

definition scenario_music_on_hold :: json where
  "scenario_music_on_hold =
     JObj [(''MusicOnHold0'', JNull), (''MusicOnHold3'', JStr ''hold.wav'')]"

definition null_forwards_receptionists :: json where
  "null_forwards_receptionists =
     JObj [(''value'', JArr [JObj [(''Number'', JStr ''100''), (''Name'', JStr ''Main''),
       (''Forwards'', JNull)]])]"

definition empty_name_receptionists :: json where
  "empty_name_receptionists =
     JObj [(''value'', JArr [JObj [(''Number'', JStr ''100''), (''Name'', JStr ''Main''),
       (''PromptFilename'', JStr [])]])]"

definition welcome_conference :: json where
  "welcome_conference = JObj [(''MusicOnHold'', JStr ''welcome.wav'')]"

definition ghost_call_parking :: json where
  "ghost_call_parking = JObj [(''MusicOnHold'', JStr ''ghost.wav'')]"

section \<open>The resolver as \<open>main\<close> calls it: known names of any hashable type\<close>

text \<open>
  The two reports build the known names from the display names, whatever values these
  are, so the set may hold numbers and \<open>True\<close> beside strings. Python's sets and dicts find
  a key by its hash and \<open>==\<close>: a list or a dict has no hash, numbers are equal by value
  (\<open>True == 1 == 1.0\<close>), a string is equal to the same string only. Here a set is the list
  of its elements, no two of them equal, and the dict \<open>usages\<close> is an association list from
  names to lists of descriptions. Their order stands for Python's iteration order, which
  the program uses under \<open>sorted\<close> only. The functions are those of
  \<open>gather_prompt_usages\<close> again, which is this resolver on known names that are strings.
\<close>

definition num_val :: "json \<Rightarrow> rat option" where
  "num_val v =
     (case v of
        JBool b \<Rightarrow> Some (if b then 1 else 0)
      | JInt i \<Rightarrow> Some (of_int i)
      | JFloat q txt \<Rightarrow> Some q
      | _ \<Rightarrow> None)"

definition py_eq :: "json \<Rightarrow> json \<Rightarrow> bool" where
  "py_eq a b =
     (case num_val a of
        Some x \<Rightarrow> num_val b = Some x
      | None \<Rightarrow> num_val b = None \<and> a = b)"

text \<open>\<open>x in s\<close> for a set, or the keys of a dict, with the elements \<open>ks\<close>.\<close>

definition py_in_keys :: "json \<Rightarrow> json list \<Rightarrow> error + bool" where
  "py_in_keys v ks =
     (case v of
        JArr xs \<Rightarrow> Inl TypeError
      | JObj kvs \<Rightarrow> Inl TypeError
      | _ \<Rightarrow> Inr (list_ex (py_eq v) ks))"

type_synonym usages_any = "(json \<times> string list) list"

definition add_any :: "usages_any \<Rightarrow> json \<Rightarrow> string \<Rightarrow> error + usages_any" where
  "add_any u fn text =
     bindE (py_in_keys fn (map fst u)) (\<lambda>present.
       Inr (if present
            then map (\<lambda>kv. if py_eq fn (fst kv) then (fst kv, snd kv @ [text]) else kv) u
            else u))"

definition add_if_known_any :: "json list \<Rightarrow> json \<Rightarrow> error + string \<Rightarrow> usages_any \<Rightarrow> error + usages_any" where
  "add_if_known_any P v text u =
     (if truthy v
      then bindE (py_in_keys v P) (\<lambda>known.
             if known then bindE text (\<lambda>t. add_any u v t) else Inr u)
      else Inr u)"

definition forward_step_any :: "json list \<Rightarrow> json \<Rightarrow> usages_any \<Rightarrow> json \<Rightarrow> error + usages_any" where
  "forward_step_any P item u forward =
     bindE (dict_get forward ''CustomData'' JNull) (\<lambda>custom_data.
       add_if_known_any P custom_data (describe ''Receptionist (forward key): '' item) u)"

definition receptionist_step_any :: "json list \<Rightarrow> usages_any \<Rightarrow> json \<Rightarrow> error + usages_any" where
  "receptionist_step_any P u item =
     bindE (dict_get item ''PromptFilename'' JNull) (\<lambda>filename.
     bindE (add_if_known_any P filename (describe ''Receptionist: '' item) u) (\<lambda>u1.
     bindE (dict_get item ''Forwards'' (JArr [])) (\<lambda>fw.
     bindE (py_iter fw) (\<lambda>forwards.
       foldE (forward_step_any P item) u1 forwards))))"

definition file_key_step_any :: "json list \<Rightarrow> json \<Rightarrow> usages_any \<Rightarrow> string \<Rightarrow> error + usages_any" where
  "file_key_step_any P item u key =
     bindE (dict_get item key JNull) (\<lambda>value.
       add_if_known_any P value (describe (''Queue '' @ key @ '': '') item) u)"

definition route_step_any :: "string \<Rightarrow> json list \<Rightarrow> json \<Rightarrow> usages_any \<Rightarrow> string \<Rightarrow> error + usages_any" where
  "route_step_any kind P item u rkey =
     bindE (dict_get item rkey (JObj [])) (\<lambda>r.
     bindE (dict_get (py_or r (JObj [])) ''Prompt'' JNull) (\<lambda>prompt.
       add_if_known_any P prompt (describe (kind @ '' route '' @ rkey @ '': '') item) u))"

definition queue_step_any :: "json list \<Rightarrow> usages_any \<Rightarrow> json \<Rightarrow> error + usages_any" where
  "queue_step_any P u item =
     bindE (foldE (file_key_step_any P item) u queue_file_keys) (\<lambda>u1.
       foldE (route_step_any ''Queue'' P item) u1 route_keys)"

definition group_step_any :: "json list \<Rightarrow> usages_any \<Rightarrow> json \<Rightarrow> error + usages_any" where
  "group_step_any P u item = foldE (route_step_any ''Group'' P item) u group_route_keys"

definition moh_step_any :: "json list \<Rightarrow> usages_any \<Rightarrow> string \<times> json \<Rightarrow> error + usages_any" where
  "moh_step_any P u kv =
     add_if_known_any P (snd kv) (Inr (''MusicOnHold setting ('' @ fst kv @ '')'')) u"

definition scan_setting_any :: "json list \<Rightarrow> string \<Rightarrow> json \<Rightarrow> usages_any \<Rightarrow> error + usages_any" where
  "scan_setting_any P text settings u =
     bindE (dict_get (py_or settings (JObj [])) ''MusicOnHold'' JNull) (\<lambda>moh.
       add_if_known_any P moh (Inr text) u)"

definition gather_prompt_usages_any ::
  "json list \<Rightarrow> json \<Rightarrow> json \<Rightarrow> json \<Rightarrow> json \<Rightarrow> json \<Rightarrow> json \<Rightarrow> error + usages_any" where
  "gather_prompt_usages_any prompt_filenames receptionists queues groups
       music_on_hold_settings conference_settings call_parking_settings =
     bindE (scan_collection (receptionist_step_any prompt_filenames) receptionists
              (map (\<lambda>fn. (fn, [])) prompt_filenames)) (\<lambda>u1.
     bindE (scan_collection (queue_step_any prompt_filenames) queues u1) (\<lambda>u2.
     bindE (scan_collection (group_step_any prompt_filenames) groups u2) (\<lambda>u3.
     bindE (dict_items (py_or music_on_hold_settings (JObj []))) (\<lambda>items.
     bindE (foldE (moh_step_any prompt_filenames) u3 items) (\<lambda>u4.
     bindE (scan_setting_any prompt_filenames ''Conference: MusicOnHold'' conference_settings u4) (\<lambda>u5.
     bindE (scan_setting_any prompt_filenames ''CallParking: MusicOnHold'' call_parking_settings u5) (\<lambda>u6.
       Inr (filter (\<lambda>kv. snd kv \<noteq> []) u6))))))))"

text \<open>
  What relates the two resolvers on known names \<open>ns\<close> that are strings: the dict has the
  names for keys, in their order, and holds for each what the map binds to it.
\<close>

definition usages_of :: "usages_any \<Rightarrow> usages" where
  "usages_of u = (\<lambda>s. map_option snd (find (\<lambda>kv. fst kv = JStr s) u))"

definition same_usages :: "string list \<Rightarrow> usages_any \<Rightarrow> usages \<Rightarrow> bool" where
  "same_usages ns ua u =
     (map fst ua = map JStr ns
      \<and> (\<forall>i<length ns. u (ns ! i) = Some (snd (ua ! i)))
      \<and> (\<forall>s. s \<notin> set ns \<longrightarrow> u s = None))"

section \<open>The run: from the cache or from the remote API\<close>

text \<open>
  What \<open>main\<close> does to the outside is a trace of events, one for each call it makes:
  requests to the remote API, files read and written, directories made, lines printed.
  The outside is a record of oracles that say how a call ends. The answer to a request may
  depend on how many requests were made before it, and on the token. Building the HTTP
  client reads proxy and certificate settings from the process environment and may raise
  on them: \<open>new_transport\<close>. Paths are POSIX paths.
\<close>

datatype event =
    HttpGet string "(string \<times> string) list"
  | FileRead string
  | MakeDirs string
  | FileWrite string json
  | Print string

record world =
  is_dir :: "string \<Rightarrow> bool"
  path_exists :: "string \<Rightarrow> bool"
  file_content :: "string \<Rightarrow> error + json"
  make_dirs :: "string \<Rightarrow> error + unit"
  write_file :: "string \<Rightarrow> error + unit"
  environ :: "string \<rightharpoonup> string"
  new_transport :: "error + unit"
  http_response :: "nat \<Rightarrow> string \<Rightarrow> string \<Rightarrow> (string \<times> string) list \<Rightarrow> error + json"

text \<open>
  A computation takes the trace so far and returns the trace it leaves and its result; an
  exception ends it with the trace of what it did before.
\<close>

type_synonym 'a io = "event list \<Rightarrow> event list \<times> (error + 'a)"

definition returnIO :: "'a \<Rightarrow> 'a io" where
  "returnIO x = (\<lambda>t. (t, Inr x))"

definition liftE :: "error + 'a \<Rightarrow> 'a io" where
  "liftE r = (\<lambda>t. (t, r))"

definition bindIO :: "'a io \<Rightarrow> ('a \<Rightarrow> 'b io) \<Rightarrow> 'b io" where
  "bindIO m f = (\<lambda>t. case m t of (t', Inl e) \<Rightarrow> (t', Inl e) | (t', Inr x) \<Rightarrow> f x t')"

definition thenIO :: "'a io \<Rightarrow> 'b io \<Rightarrow> 'b io" where
  "thenIO m n = bindIO m (\<lambda>x. n)"

definition emit :: "event \<Rightarrow> unit io" where
  "emit ev = (\<lambda>t. (t @ [ev], Inr ()))"

fun forIO :: "('a \<Rightarrow> unit io) \<Rightarrow> 'a list \<Rightarrow> unit io" where
  "forIO body [] = returnIO ()"
| "forIO body (x # xs) = thenIO (body x) (forIO body xs)"

fun mapIO :: "('a \<Rightarrow> 'b io) \<Rightarrow> 'a list \<Rightarrow> 'b list io" where
  "mapIO body [] = returnIO []"
| "mapIO body (x # xs) =
     bindIO (body x) (\<lambda>y. bindIO (mapIO body xs) (\<lambda>ys. returnIO (y # ys)))"

fun is_http :: "event \<Rightarrow> bool" where
  "is_http (HttpGet url params) = True"
| "is_http ev = False"

subsection \<open>The cache: \<open>load_json_file\<close> and \<open>report_from_output\<close>\<close>

text \<open>\<open>os.path.join(a, b)\<close>.\<close>

definition path_join :: "string \<Rightarrow> string \<Rightarrow> string" where
  "path_join a b =
     (if b \<noteq> [] \<and> hd b = CHR ''/'' then b
      else if a = [] \<or> last a = CHR ''/'' then a @ b
      else a @ ''/'' @ b)"

definition load_json_file :: "world \<Rightarrow> string \<Rightarrow> json io" where
  "load_json_file w path =
     (if \<not> path_exists w path then returnIO JNull
      else thenIO (emit (FileRead path)) (liftE (file_content w path)))"

text \<open>The local \<open>ld(fname)\<close>: \<open>load_json_file(os.path.join(output_dir, fname)) or {}\<close>.\<close>

definition ld :: "world \<Rightarrow> string \<Rightarrow> string \<Rightarrow> json io" where
  "ld w output_dir fname =
     bindIO (load_json_file w (path_join output_dir fname)) (\<lambda>x. returnIO (py_or x (JObj [])))"

text \<open>
  \<open>{p.get("DisplayName") for p in prompts.get("value", []) if p.get("DisplayName")}\<close>:
  adding a name to the set hashes it, and a name equal to one in the set changes nothing.
\<close>

definition prompt_name_step :: "json list \<Rightarrow> json \<Rightarrow> error + json list" where
  "prompt_name_step S p =
     bindE (dict_get p ''DisplayName'' JNull) (\<lambda>name.
       if truthy name
       then bindE (py_in_keys name S) (\<lambda>present. Inr (if present then S else S @ [name]))
       else Inr S)"

definition prompt_filenames_of :: "json \<Rightarrow> error + json list" where
  "prompt_filenames_of prompts =
     bindE (dict_get prompts ''value'' (JArr [])) (\<lambda>v.
     bindE (py_iter v) (\<lambda>ps.
       foldE prompt_name_step [] ps))"

text \<open>
  \<open>sorted(usages.keys())\<close>: strings are ordered by their code points, numbers by value,
  and comparing a string or \<open>None\<close> with anything of another type raises \<open>TypeError\<close>, which
  sorting two keys or more of such types cannot avoid.
\<close>

definition is_str :: "json \<Rightarrow> bool" where
  "is_str k = (case k of JStr s \<Rightarrow> True | _ \<Rightarrow> False)"

definition str_of :: "json \<Rightarrow> string" where
  "str_of k = (case k of JStr s \<Rightarrow> s | _ \<Rightarrow> [])"

definition sorted_names :: "json list \<Rightarrow> error + json list" where
  "sorted_names ks =
     (if length ks \<le> 1 then Inr ks
      else if list_all is_str ks then Inr (sort_key str_of ks)
      else if list_all (\<lambda>k. num_val k \<noteq> None) ks
        then Inr (sort_key (\<lambda>k. case num_val k of Some x \<Rightarrow> x | None \<Rightarrow> 0) ks)
      else Inl TypeError)"

text \<open>\<open>usages[filename]\<close> for a key of the dict.\<close>

definition entries_of :: "usages_any \<Rightarrow> json \<Rightarrow> string list" where
  "entries_of usages k =
     (case find (\<lambda>kv. py_eq k (fst kv)) usages of Some kv \<Rightarrow> snd kv | None \<Rightarrow> [])"

definition print_report :: "usages_any \<Rightarrow> unit io" where
  "print_report usages =
     (if usages = [] then emit (Print ''No prompt files in use were found.'')
      else
        thenIO (emit (Print ''Detailed list of used prompt filenames:''))
       (bindIO (liftE (sorted_names (map fst usages))) (\<lambda>names.
        thenIO (forIO (\<lambda>filename.
                  thenIO (emit (Print ([CHR 0x0A] @ py_str filename @ '':'')))
                    (forIO (\<lambda>entry. emit (Print (''  - '' @ entry)))
                       (entries_of usages filename)))
                names)
       (thenIO (emit (Print ([CHR 0x0A] @ ''Used prompt filenames:'')))
       (bindIO (liftE (sorted_names (map fst usages))) (\<lambda>names.
               forIO (\<lambda>filename. emit (Print ('' - '' @ py_str filename))) names))))))"

text \<open>The part shared by both reports: the known filenames, the resolver, the report.\<close>

definition resolve_and_print :: "json \<Rightarrow> json \<Rightarrow> json \<Rightarrow> json \<Rightarrow> json \<Rightarrow> json \<Rightarrow> json \<Rightarrow> unit io" where
  "resolve_and_print prompts receptionists queues groups music_on_hold_settings
       conference_settings call_parking_settings =
     bindIO (liftE (prompt_filenames_of prompts)) (\<lambda>prompt_filenames.
     bindIO (liftE (gather_prompt_usages_any prompt_filenames receptionists queues groups
                      music_on_hold_settings conference_settings call_parking_settings)) (\<lambda>usages.
       print_report usages))"

definition report_from_output :: "world \<Rightarrow> string \<Rightarrow> unit io" where
  "report_from_output w output_dir =
     bindIO (ld w output_dir ''custom_prompts.json'') (\<lambda>prompts.
     bindIO (ld w output_dir ''receptionists.json'') (\<lambda>receptionists.
     bindIO (ld w output_dir ''queues.json'') (\<lambda>queues.
     bindIO (ld w output_dir ''groups.json'') (\<lambda>groups.
     bindIO (ld w output_dir ''playlists.json'') (\<lambda>playlists.
     bindIO (ld w output_dir ''music_on_hold_settings.json'') (\<lambda>music_on_hold_settings.
     bindIO (ld w output_dir ''conference_settings.json'') (\<lambda>conference_settings.
     bindIO (ld w output_dir ''call_parking_settings.json'') (\<lambda>call_parking_settings.
       resolve_and_print (py_or prompts no_entities) (py_or receptionists no_entities)
         (py_or queues no_entities) (py_or groups no_entities)
         (py_or music_on_hold_settings (JObj [])) (py_or conference_settings (JObj []))
         (py_or call_parking_settings (JObj []))))))))))"

subsection \<open>The remote API: \<open>APIClient\<close> and \<open>report_from_api\<close>\<close>

record api_client =
  token :: string
  fqdn :: string

text \<open>
  \<open>APIClient(token, fqdn)\<close>: a leading \<open>Bearer\<close> is cut from the token and the client of the
  HTTP library is built with the two headers. The library encodes the header values as
  ASCII, so a token with another character raises \<open>UnicodeEncodeError\<close>, and then it
  builds its transport. After that the scheme is put in front of the host (\<open>None\<close> formats
  as the text \<open>None\<close>) and one trailing slash is cut. No request is made.
\<close>

definition APIClient :: "world \<Rightarrow> string \<Rightarrow> string option \<Rightarrow> error + api_client" where
  "APIClient w tok host =
     (let stripped = (if take 7 tok = ''Bearer '' then drop 7 tok else tok);
          url = ''https://'' @ (case host of Some h \<Rightarrow> h | None \<Rightarrow> ''None'')
      in if list_ex (\<lambda>c. 128 \<le> (of_char c :: nat)) stripped then Inl UnicodeEncodeError
         else bindE (new_transport w) (\<lambda>made.
                Inr \<lparr> token = stripped,
                      fqdn = (if last url = CHR ''/'' then butlast url else url) \<rparr>))"

text \<open>
  \<open>request("GET", url, params=...)\<close> with \<open>raise_for_status\<close>, and \<open>orjson.loads\<close> of the
  content.
\<close>

definition api_get :: "world \<Rightarrow> api_client \<Rightarrow> string \<Rightarrow> (string \<times> string) list \<Rightarrow> json io" where
  "api_get w client path params =
     (\<lambda>t. (t @ [HttpGet (fqdn client @ path) params],
           http_response w (length (filter is_http t)) (token client) (fqdn client @ path) params))"

definition custom_prompts :: "world \<Rightarrow> api_client \<Rightarrow> json io" where
  "custom_prompts w client =
     api_get w client ''/xapi/v1/CustomPrompts'' [(''$select'', ''DisplayName'')]"

definition playlists :: "world \<Rightarrow> api_client \<Rightarrow> json io" where
  "playlists w client = api_get w client ''/xapi/v1/Playlists'' [(''$select'', ''Name,Files'')]"

definition receptionists :: "world \<Rightarrow> api_client \<Rightarrow> json io" where
  "receptionists w client =
     api_get w client ''/xapi/v1/Receptionists''
       [(''$select'', ''Name,Number,PromptFilename''),
        (''$expand'', ''Forwards($select=Input,CustomData)'')]"

definition queues :: "world \<Rightarrow> api_client \<Rightarrow> json io" where
  "queues w client =
     api_get w client ''/xapi/v1/Queues''
       [(''$select'', ''Name,Number,IntroFile,OnHoldFile,GreetingFile,HolidaysRoute/Prompt,OutOfOfficeRoute/Prompt,BreakRoute/Prompt'')]"

definition groups :: "world \<Rightarrow> api_client \<Rightarrow> json io" where
  "groups w client =
     api_get w client ''/xapi/v1/Groups''
       [(''$select'', ''Name,Number,OfficeRoute/Prompt,OutOfOfficeRoute/Prompt,BreakRoute/Prompt,HolidaysRoute/Prompt''),
        (''$filter'', ''not startsWith(Name, '' @ [CHR 0x27] @ ''___FAVORITES___'' @ [CHR 0x27] @ '')'')]"

definition conference_settings :: "world \<Rightarrow> api_client \<Rightarrow> json io" where
  "conference_settings w client =
     api_get w client ''/xapi/v1/ConferenceSettings'' [(''$select'', ''Extension,MusicOnHold'')]"

definition call_parking_settings :: "world \<Rightarrow> api_client \<Rightarrow> json io" where
  "call_parking_settings w client =
     api_get w client ''/xapi/v1/CallParkingSettings'' [(''$select'', ''MusicOnHold'')]"

definition music_on_hold_settings :: "world \<Rightarrow> api_client \<Rightarrow> json io" where
  "music_on_hold_settings w client =
     api_get w client ''/xapi/v1/MusicOnHoldSettings''
       [(''$select'', join '','' (map (\<lambda>i. ''MusicOnHold'' @ dec i) [0..<10]))]"

text \<open>\<open>item[key] = value\<close> on a dict: the key keeps its place, a new key goes last.\<close>

fun alist_set :: "string \<Rightarrow> json \<Rightarrow> (string \<times> json) list \<Rightarrow> (string \<times> json) list" where
  "alist_set k v [] = [(k, v)]"
| "alist_set k v (p # ps) = (if fst p = k then (k, v) # ps else p # alist_set k v ps)"

fun dict_set :: "json \<Rightarrow> string \<Rightarrow> json \<Rightarrow> error + json" where
  "dict_set (JObj kvs) k v = Inr (JObj (alist_set k v kvs))"
| "dict_set x k v = Inl TypeError"

text \<open>
  The loop body of \<open>call_flow_apps\<close>: it stores the files of one app in the item, and the
  model returns the item as the loop leaves it.
\<close>

definition fetch_files :: "world \<Rightarrow> api_client \<Rightarrow> json \<Rightarrow> json io" where
  "fetch_files w client item =
     bindIO (liftE (dict_get item ''Id'' JNull)) (\<lambda>item_id.
       if item_id = JNull then liftE (dict_set item ''Files'' (JArr []))
       else
         bindIO (api_get w client
                   (''/xapi/v1/CallFlowApps('' @ py_str item_id @ '')/Pbx.GetFiles()'') []) (\<lambda>files_content.
         bindIO (liftE (dict_get files_content ''value'' (JArr []))) (\<lambda>files.
           liftE (dict_set item ''Files'' files))))"

text \<open>
  The items are changed in place, so the content returned holds the changed items where
  its \<open>value\<close> is the list that was iterated.
\<close>

definition call_flow_apps :: "world \<Rightarrow> api_client \<Rightarrow> json io" where
  "call_flow_apps w client =
     bindIO (api_get w client ''/xapi/v1/CallFlowApps'' [(''$select'', ''Id,Name,Number'')]) (\<lambda>content.
     bindIO (liftE (dict_get content ''value'' (JArr []))) (\<lambda>v.
     bindIO (liftE (py_iter v)) (\<lambda>items.
     bindIO (mapIO (fetch_files w client) items) (\<lambda>changed.
       returnIO
         (case content of
            JObj kvs \<Rightarrow>
              (case map_of kvs ''value'' of
                 Some (JArr xs) \<Rightarrow> JObj (alist_set ''value'' (JArr changed) kvs)
               | _ \<Rightarrow> content)
          | _ \<Rightarrow> content)))))"

definition print_app :: "json \<Rightarrow> unit io" where
  "print_app item =
     bindIO (liftE (dict_get item ''Files'' JNull)) (\<lambda>files.
       if files \<noteq> JArr [] then
         bindIO (liftE (dict_get item ''Number'' JNull)) (\<lambda>number.
         bindIO (liftE (dict_get item ''Name'' JNull)) (\<lambda>name.
         thenIO (emit (Print (py_str number @ '' '' @ py_str name @ '':'')))
        (bindIO (liftE (dict_get item ''Files'' (JArr []))) (\<lambda>fl.
         bindIO (liftE (py_iter fl)) (\<lambda>fs.
           forIO (\<lambda>file. emit (Print (''  - File: '' @ py_str file))) fs)))))
       else returnIO ())"

definition print_call_flow_apps :: "world \<Rightarrow> api_client \<Rightarrow> unit io" where
  "print_call_flow_apps w client =
     bindIO (call_flow_apps w client) (\<lambda>apps.
     thenIO (emit (Print ([CHR 0x0A] @ ''Call Flow Apps Files:'')))
    (bindIO (liftE (dict_get (py_or apps no_entities) ''value'' (JArr []))) (\<lambda>v.
     bindIO (liftE (py_iter v)) (\<lambda>items.
     thenIO (forIO print_app items)
    (thenIO (call_flow_apps w client) (returnIO ()))))))"

text \<open>\<open>with open(path, "wb") as f: f.write(orjson.dumps(x, option=orjson.OPT_INDENT_2))\<close>.\<close>

definition dump :: "world \<Rightarrow> string \<Rightarrow> json \<Rightarrow> unit io" where
  "dump w path x = thenIO (emit (FileWrite path x)) (liftE (write_file w path))"

definition report_from_api :: "world \<Rightarrow> api_client \<Rightarrow> unit io" where
  "report_from_api w client =
     bindIO (custom_prompts w client) (\<lambda>x1. let prompts = py_or x1 no_entities in
     bindIO (receptionists w client) (\<lambda>x2. let receptionists = py_or x2 no_entities in
     bindIO (queues w client) (\<lambda>x3. let queues = py_or x3 no_entities in
     bindIO (groups w client) (\<lambda>x4. let groups = py_or x4 no_entities in
     bindIO (playlists w client) (\<lambda>x5. let playlists = py_or x5 no_entities in
     bindIO (conference_settings w client) (\<lambda>x6. let conference_settings = py_or x6 (JObj []) in
     bindIO (music_on_hold_settings w client) (\<lambda>x7. let music_on_hold_settings = py_or x7 (JObj []) in
     bindIO (call_parking_settings w client) (\<lambda>x8. let call_parking_settings = py_or x8 (JObj []) in
     bindIO (call_flow_apps w client) (\<lambda>x9. let call_flow_apps = py_or x9 no_entities in
     thenIO (emit (MakeDirs ''output''))
    (thenIO (liftE (make_dirs w ''output''))
    (thenIO (dump w ''output/custom_prompts.json'' prompts)
    (thenIO (dump w ''output/playlists.json'' playlists)
    (thenIO (dump w ''output/receptionists.json'' receptionists)
    (thenIO (dump w ''output/queues.json'' queues)
    (thenIO (dump w ''output/groups.json'' groups)
    (thenIO (dump w ''output/conference_settings.json'' conference_settings)
    (thenIO (dump w ''output/music_on_hold_settings.json'' music_on_hold_settings)
    (thenIO (dump w ''output/call_parking_settings.json'' call_parking_settings)
    (thenIO (dump w ''output/call_flow_apps.json'' call_flow_apps)
    (thenIO (resolve_and_print prompts receptionists queues groups music_on_hold_settings
               conference_settings call_parking_settings)
            (print_call_flow_apps w client)))))))))))))))))))))"

subsection \<open>\<open>main\<close>\<close>

definition main :: "world \<Rightarrow> unit io" where
  "main w =
     (let output_dir = ''output'' in
      if is_dir w output_dir \<and> path_exists w (path_join output_dir ''custom_prompts.json'')
      then report_from_output w output_dir
      else
        (let host = environ w ''FQDN'';
             tok = (case environ w ''BEARER_TOKEN'' of Some t \<Rightarrow> t | None \<Rightarrow> [])
         in bindIO (liftE (APIClient w tok host)) (\<lambda>client. report_from_api w client)))"

text \<open>
  Three worlds: one with the cache in place, one without it, and one without it whose token
  holds a character that is not ASCII.
\<close>

definition cached_world :: world where
  "cached_world =
     \<lparr> is_dir = (\<lambda>p. p = ''output''),
       path_exists = (\<lambda>p. p = ''output'' \<or> p = ''output/custom_prompts.json''),
       file_content = (\<lambda>p. Inr (JObj [(''value'', JArr [JObj [(''DisplayName'', JStr ''welcome.wav'')]])])),
       make_dirs = (\<lambda>p. Inr ()),
       write_file = (\<lambda>p. Inr ()),
       environ = Map.empty,
       new_transport = Inr (),
       http_response = (\<lambda>n tok url params. Inl HTTPError) \<rparr>"

definition fresh_world :: world where
  "fresh_world =
     \<lparr> is_dir = (\<lambda>p. False),
       path_exists = (\<lambda>p. False),
       file_content = (\<lambda>p. Inl OSError),
       make_dirs = (\<lambda>p. Inr ()),
       write_file = (\<lambda>p. Inr ()),
       environ = [''FQDN'' \<mapsto> ''pbx.example.com'', ''BEARER_TOKEN'' \<mapsto> ''Bearer abc''],
       new_transport = Inr (),
       http_response = (\<lambda>n tok url params. Inr (JObj [(''value'', JArr [])])) \<rparr>"

definition latin_world :: world where
  "latin_world =
     \<lparr> is_dir = (\<lambda>p. False),
       path_exists = (\<lambda>p. False),
       file_content = (\<lambda>p. Inl OSError),
       make_dirs = (\<lambda>p. Inr ()),
       write_file = (\<lambda>p. Inr ()),
       environ = [''FQDN'' \<mapsto> ''pbx.example.com'', ''BEARER_TOKEN'' \<mapsto> [CHR ''t'', CHR 0xE9]],
       new_transport = Inr (),
       http_response = (\<lambda>n tok url params. Inr (JObj [(''value'', JArr [])])) \<rparr>"

text \<open>
  The events of a run that starts with nothing done, and the requests among them. A
  computation is offline when, whatever was done before it, it adds no request.
\<close>

definition trace_of :: "'a io \<Rightarrow> event list" where
  "trace_of m = fst (m [])"

definition network_calls :: "event list \<Rightarrow> event list" where
  "network_calls evs = filter is_http evs"

definition extends :: "'a io \<Rightarrow> bool" where
  "extends m = (\<forall>t. \<exists>new. fst (m t) = t @ new)"

definition offline :: "'a io \<Rightarrow> bool" where
  "offline m = (\<forall>t. \<exists>new. fst (m t) = t @ new \<and> network_calls new = [])"

section \<open>The resolver over a store of objects\<close>

text \<open>
  To speak of what a call changes, the objects get addresses. A store is the list of the
  objects allocated so far and an address is a position in it. An argument of the resolver
  is an address: of the set of known filenames (its elements in iteration order), or of a
  collection (\<open>None\<close>, or the tree \<open>orjson.loads\<close> built, taken as one object, so that a
  change anywhere inside it is a change of the cell). The objects the resolver makes are
  the lists of descriptions and the two dicts from filename to list, of lines 29 and 88.
  A call that raises leaves the store as it is at that moment: the error comes with it.
  A cell of the wrong kind at an address is a call the program does not make; the model
  ends it with \<open>TypeError\<close>.
\<close>

datatype cell =
    Names "string list"
  | Coll json
  | Lines "string list"
  | Dict "(string \<times> nat) list"

type_synonym store = "cell list"

type_synonym 'a stored = "(error \<times> store) + 'a"

definition at_store :: "store \<Rightarrow> error + 'a \<Rightarrow> 'a stored" where
  "at_store h m = (case m of Inl e \<Rightarrow> Inl (e, h) | Inr x \<Rightarrow> Inr x)"

definition cell_at :: "store \<Rightarrow> nat \<Rightarrow> cell option" where
  "cell_at h a = (if a < length h then Some (h ! a) else None)"

definition names_at :: "store \<Rightarrow> nat \<Rightarrow> error + string list" where
  "names_at h a = (case cell_at h a of Some (Names ns) \<Rightarrow> Inr (remdups ns) | _ \<Rightarrow> Inl TypeError)"

definition coll_at :: "store \<Rightarrow> nat \<Rightarrow> error + json" where
  "coll_at h a = (case cell_at h a of Some (Coll x) \<Rightarrow> Inr x | _ \<Rightarrow> Inl TypeError)"

text \<open>
  \<open>usages = {fn: [] for fn in prompt_filenames}\<close>: a new empty list for every filename,
  then the dict that holds their addresses; the result is the store and the address of the
  dict.
\<close>

definition new_usages :: "string list \<Rightarrow> store \<Rightarrow> store \<times> nat" where
  "new_usages ns h =
     (h @ replicate (length ns) (Lines []) @ [Dict (zip ns [length h..<length h + length ns])],
      length h + length ns)"

text \<open>\<open>add(fn, text)\<close>: the list at the address \<open>usages[fn]\<close> is changed in place.\<close>

definition add_store :: "nat \<Rightarrow> store \<Rightarrow> json \<Rightarrow> string \<Rightarrow> store stored" where
  "add_store ua h fn text =
     (case fn of
        JStr s \<Rightarrow>
          (case cell_at h ua of
             Some (Dict d) \<Rightarrow>
               (case map_of d s of
                  Some a \<Rightarrow>
                    (case cell_at h a of
                       Some (Lines l) \<Rightarrow> Inr (h[a := Lines (l @ [text])])
                     | _ \<Rightarrow> Inl (TypeError, h))
                | None \<Rightarrow> Inr h)
           | _ \<Rightarrow> Inl (TypeError, h))
      | JArr xs \<Rightarrow> Inl (TypeError, h)
      | JObj kvs \<Rightarrow> Inl (TypeError, h)
      | _ \<Rightarrow> Inr h)"

text \<open>
  The functions of the resolver again, with the store for state: \<open>pa\<close> is the address of
  the known filenames, \<open>ua\<close> that of \<open>usages\<close>, and every read of an argument is a read of
  the store as it is at that moment.
\<close>

definition add_if_known_store :: "nat \<Rightarrow> nat \<Rightarrow> json \<Rightarrow> error + string \<Rightarrow> store \<Rightarrow> store stored" where
  "add_if_known_store pa ua v text h =
     (if truthy v
      then bindE (at_store h (names_at h pa)) (\<lambda>ns.
           bindE (at_store h (py_in v (set ns))) (\<lambda>known.
             if known then bindE (at_store h text) (\<lambda>t. add_store ua h v t) else Inr h))
      else Inr h)"

definition forward_step_store :: "nat \<Rightarrow> nat \<Rightarrow> json \<Rightarrow> store \<Rightarrow> json \<Rightarrow> store stored" where
  "forward_step_store pa ua item h forward =
     bindE (at_store h (dict_get forward ''CustomData'' JNull)) (\<lambda>custom_data.
       add_if_known_store pa ua custom_data (describe ''Receptionist (forward key): '' item) h)"

definition receptionist_step_store :: "nat \<Rightarrow> nat \<Rightarrow> store \<Rightarrow> json \<Rightarrow> store stored" where
  "receptionist_step_store pa ua h item =
     bindE (at_store h (dict_get item ''PromptFilename'' JNull)) (\<lambda>filename.
     bindE (add_if_known_store pa ua filename (describe ''Receptionist: '' item) h) (\<lambda>h1.
     bindE (at_store h1 (dict_get item ''Forwards'' (JArr []))) (\<lambda>fw.
     bindE (at_store h1 (py_iter fw)) (\<lambda>forwards.
       foldE (forward_step_store pa ua item) h1 forwards))))"

definition file_key_step_store :: "nat \<Rightarrow> nat \<Rightarrow> json \<Rightarrow> store \<Rightarrow> string \<Rightarrow> store stored" where
  "file_key_step_store pa ua item h key =
     bindE (at_store h (dict_get item key JNull)) (\<lambda>value.
       add_if_known_store pa ua value (describe (''Queue '' @ key @ '': '') item) h)"

definition route_step_store :: "string \<Rightarrow> nat \<Rightarrow> nat \<Rightarrow> json \<Rightarrow> store \<Rightarrow> string \<Rightarrow> store stored" where
  "route_step_store kind pa ua item h rkey =
     bindE (at_store h (dict_get item rkey (JObj []))) (\<lambda>r.
     bindE (at_store h (dict_get (py_or r (JObj [])) ''Prompt'' JNull)) (\<lambda>prompt.
       add_if_known_store pa ua prompt (describe (kind @ '' route '' @ rkey @ '': '') item) h))"

definition queue_step_store :: "nat \<Rightarrow> nat \<Rightarrow> store \<Rightarrow> json \<Rightarrow> store stored" where
  "queue_step_store pa ua h item =
     bindE (foldE (file_key_step_store pa ua item) h queue_file_keys) (\<lambda>h1.
       foldE (route_step_store ''Queue'' pa ua item) h1 route_keys)"

definition group_step_store :: "nat \<Rightarrow> nat \<Rightarrow> store \<Rightarrow> json \<Rightarrow> store stored" where
  "group_step_store pa ua h item = foldE (route_step_store ''Group'' pa ua item) h group_route_keys"

definition moh_step_store :: "nat \<Rightarrow> nat \<Rightarrow> store \<Rightarrow> string \<times> json \<Rightarrow> store stored" where
  "moh_step_store pa ua h kv =
     add_if_known_store pa ua (snd kv) (Inr (''MusicOnHold setting ('' @ fst kv @ '')'')) h"

definition scan_collection_store :: "(store \<Rightarrow> json \<Rightarrow> store stored) \<Rightarrow> nat \<Rightarrow> store \<Rightarrow> store stored" where
  "scan_collection_store body ca h =
     bindE (at_store h (coll_at h ca)) (\<lambda>collection.
     bindE (at_store h (dict_get (py_or collection (JObj [])) ''value'' (JArr []))) (\<lambda>v.
     bindE (at_store h (py_iter v)) (\<lambda>items.
       foldE body h items)))"

definition scan_moh_store :: "nat \<Rightarrow> nat \<Rightarrow> nat \<Rightarrow> store \<Rightarrow> store stored" where
  "scan_moh_store pa ua ma h =
     bindE (at_store h (coll_at h ma)) (\<lambda>settings.
     bindE (at_store h (dict_items (py_or settings (JObj [])))) (\<lambda>items.
       foldE (moh_step_store pa ua) h items))"

definition scan_setting_store :: "nat \<Rightarrow> nat \<Rightarrow> string \<Rightarrow> nat \<Rightarrow> store \<Rightarrow> store stored" where
  "scan_setting_store pa ua text sa h =
     bindE (at_store h (coll_at h sa)) (\<lambda>settings.
     bindE (at_store h (dict_get (py_or settings (JObj [])) ''MusicOnHold'' JNull)) (\<lambda>moh.
       add_if_known_store pa ua moh (Inr text) h))"

text \<open>
  \<open>usages = {k: v for k, v in usages.items() if v}\<close>: a new dict with the addresses of the
  lists that are not empty; its address is what the resolver returns.
\<close>

definition nonempty_at :: "store \<Rightarrow> string \<times> nat \<Rightarrow> bool" where
  "nonempty_at h kv = (case cell_at h (snd kv) of Some (Lines l) \<Rightarrow> l \<noteq> [] | _ \<Rightarrow> False)"

definition filter_usages :: "nat \<Rightarrow> store \<Rightarrow> (store \<times> nat) stored" where
  "filter_usages ua h =
     (case cell_at h ua of
        Some (Dict d) \<Rightarrow> Inr (h @ [Dict (filter (nonempty_at h) d)], length h)
      | _ \<Rightarrow> Inl (TypeError, h))"

definition gather_store ::
  "store \<Rightarrow> nat \<Rightarrow> nat \<Rightarrow> nat \<Rightarrow> nat \<Rightarrow> nat \<Rightarrow> nat \<Rightarrow> nat \<Rightarrow> (store \<times> nat) stored" where
  "gather_store h pa ra qa ga ma ca cpa =
     bindE (at_store h (names_at h pa)) (\<lambda>ns.
     bindE (scan_collection_store (receptionist_step_store pa (snd (new_usages ns h))) ra
              (fst (new_usages ns h))) (\<lambda>h1.
     bindE (scan_collection_store (queue_step_store pa (snd (new_usages ns h))) qa h1) (\<lambda>h2.
     bindE (scan_collection_store (group_step_store pa (snd (new_usages ns h))) ga h2) (\<lambda>h3.
     bindE (scan_moh_store pa (snd (new_usages ns h)) ma h3) (\<lambda>h4.
     bindE (scan_setting_store pa (snd (new_usages ns h)) ''Conference: MusicOnHold'' ca h4) (\<lambda>h5.
     bindE (scan_setting_store pa (snd (new_usages ns h)) ''CallParking: MusicOnHold'' cpa h5) (\<lambda>h6.
       filter_usages (snd (new_usages ns h)) h6)))))))"

text \<open>The map a dict of the store stands for.\<close>

definition usage_map_at :: "store \<Rightarrow> nat \<Rightarrow> usages" where
  "usage_map_at h a =
     (case cell_at h a of
        Some (Dict d) \<Rightarrow>
          (\<lambda>fn. case map_of d fn of
                  Some la \<Rightarrow> (case cell_at h la of Some (Lines l) \<Rightarrow> Some l | _ \<Rightarrow> None)
                | None \<Rightarrow> None)
      | _ \<Rightarrow> Map.empty)"

text \<open>
  The state of a scan in the store and in the functional model: \<open>h0\<close> is the store at the
  call, \<open>ns\<close> the known filenames. The old objects are as they were, then come the lists,
  one for each filename and holding what \<open>u\<close> binds to it, then the dict \<open>usages\<close>.
\<close>

definition sim :: "store \<Rightarrow> string list \<Rightarrow> store \<Rightarrow> usages \<Rightarrow> bool" where
  "sim h0 ns h u =
     (length h = length h0 + length ns + 1
      \<and> take (length h0) h = h0
      \<and> h ! (length h0 + length ns) = Dict (zip ns [length h0..<length h0 + length ns])
      \<and> (\<forall>i<length ns. h ! (length h0 + i) = Lines (case u (ns ! i) of Some l \<Rightarrow> l | None \<Rightarrow> []))
      \<and> (\<forall>s. (s \<in> set ns) = (u s \<noteq> None)))"

text \<open>
  A call that raises in the store and in the functional model: the same error, and the
  store it leaves holds every object of the store at the call as it was.
\<close>

definition same_error :: "store \<Rightarrow> error \<times> store \<Rightarrow> error \<Rightarrow> bool" where
  "same_error h0 eh e = (fst eh = e \<and> take (length h0) (snd eh) = h0)"

text \<open>
  A call that returns in both: the dict returned stands for the map the functional model
  returns, in the store the call leaves and in every store that extends it, and every
  object of the store at the call is as it was.
\<close>

definition agrees :: "store \<Rightarrow> store \<times> nat \<Rightarrow> usages \<Rightarrow> bool" where
  "agrees h0 hr u =
     (take (length h0) (fst hr) = h0
      \<and> snd hr < length (fst hr)
      \<and> (\<forall>h''. take (length (fst hr)) h'' = fst hr \<longrightarrow> usage_map_at h'' (snd hr) = u))"

text \<open>A store with the arguments of the first scenario.\<close>

definition scenario_store :: store where
  "scenario_store =
     [Names [''welcome.wav'', ''hold.wav''], Coll scenario_receptionists, Coll scenario_queues,
      Coll no_entities, Coll (JObj []), Coll JNull]"

definition scenario_store_after :: store where
  "scenario_store_after =
     scenario_store @
     [Lines [''Receptionist: 100 Main''], Lines [''Queue OnHoldFile: 800 Support''],
      Dict [(''welcome.wav'', 6), (''hold.wav'', 7)],
      Dict [(''welcome.wav'', 6), (''hold.wav'', 7)]]"

text \<open>A store whose receptionists hold a null \<open>Forwards\<close> list, and what a call leaves of it.\<close>

definition null_forwards_store :: store where
  "null_forwards_store = [Names [''welcome.wav''], Coll null_forwards_receptionists]"

definition null_forwards_store_after :: store where
  "null_forwards_store_after =
     null_forwards_store @ [Lines [], Dict [(''welcome.wav'', 2)]]"

section \<open>Further snapshots\<close>

text \<open>A snapshot in which every kind of field refers to \<open>welcome.wav\<close>.\<close>

definition busy_receptionists :: json where
  "busy_receptionists =
     JObj [(''value'', JArr [JObj [(''Number'', JStr ''100''), (''Name'', JStr ''Main''),
       (''PromptFilename'', JStr ''welcome.wav''),
       (''Forwards'', JArr [JObj [(''CustomData'', JStr ''welcome.wav'')],
                            JObj [(''CustomData'', JStr ''other.wav'')]])]])]"

definition busy_queues :: json where
  "busy_queues =
     JObj [(''value'', JArr [JObj [(''Number'', JStr ''800''), (''Name'', JStr ''Support''),
       (''IntroFile'', JStr ''welcome.wav''), (''OnHoldFile'', JStr ''hold.wav''),
       (''BreakRoute'', JObj [(''Prompt'', JStr ''welcome.wav'')]),
       (''HolidaysRoute'', JNull)]])]"

definition busy_groups :: json where
  "busy_groups =
     JObj [(''value'', JArr [JObj [(''Number'', JStr ''900''), (''Name'', JStr ''Sales''),
       (''OfficeRoute'', JObj [(''Prompt'', JStr ''welcome.wav'')])]])]"

definition busy_music_on_hold :: json where
  "busy_music_on_hold = JObj [(''MusicOnHold0'', JStr ''welcome.wav''), (''MusicOnHold1'', JNull)]"

definition welcome_call_parking :: json where
  "welcome_call_parking = JObj [(''MusicOnHold'', JStr ''welcome.wav'')]"

text \<open>
  An absent or empty collection taken as what the specification says it counts as: a
  collection with zero entities, a settings record with no field.
\<close>

definition as_collection :: "json \<Rightarrow> json" where
  "as_collection x = (if absent_or_empty x then JObj [(''value'', JArr [])] else x)"

definition as_settings :: "json \<Rightarrow> json" where
  "as_settings x = (if absent_or_empty x then JObj [] else x)"

section \<open>Properties of the usage resolver\<close>

subsection \<open>The code computes the usage lists of the specification\<close>

text \<open>
  The invariant of the scan: after the references \<open>L\<close> have been passed, \<open>usages\<close> is
  \<open>scanned P L\<close>. Every extraction site keeps it (\<open>add_if_known_scanned\<close>), every loop
  keeps it (\<open>foldE_scanned\<close>), and a loop that returns has met records only, so that the
  items the code iterates are the entities of the specification.
\<close>

lemma bindE_Inr_iff: "bindE m f = Inr y \<longleftrightarrow> (\<exists>x. m = Inr x \<and> f x = Inr y)"
  by (cases m) (simp_all add: bindE_def)

lemma dict_get_Inr: "dict_get x k d = Inr v \<Longrightarrow> \<exists>kvs. x = JObj kvs"
  by (cases x) simp_all

lemma dict_get_JNull: "dict_get (JObj kvs) k JNull = Inr (field (JObj kvs) k)"
  by (simp add: field_def)

lemma describe_obj: "describe prefix (JObj kvs) = Inr (prefix @ label (JObj kvs))"
  by (simp add: describe_def label_def bindE_def field_def)

lemma usage_list_append:
  "usage_list P (L @ L') fn = usage_list P L fn @ usage_list P L' fn"
  by (simp add: usage_list_def)

lemma usage_list_single:
  "usage_list P [(v, d)] fn = (if v = JStr fn \<and> fn \<noteq> [] \<and> fn \<in> P then [d] else [])"
  by (simp add: usage_list_def matches_def)

lemma scanned_no_match:
  "\<not> (v = JStr fn \<and> fn \<noteq> [] \<and> fn \<in> P) \<Longrightarrow>
     usage_list P (L @ [(v, d)]) fn = usage_list P L fn"
  by (simp add: usage_list_append usage_list_single)

lemma scanned_skip:
  assumes "\<And>s. v = JStr s \<Longrightarrow> s = [] \<or> s \<notin> P"
  shows "scanned P (L @ [(v, d)]) = scanned P L"
proof (rule ext)
  fix fn
  have nm: "\<not> (v = JStr fn \<and> fn \<noteq> [] \<and> fn \<in> P)" using assms by blast
  show "scanned P (L @ [(v, d)]) fn = scanned P L fn"
    unfolding scanned_def scanned_no_match[OF nm] by (rule refl)
qed

lemma scanned_hit:
  assumes "s \<noteq> []" and "s \<in> P"
  shows "scanned P (L @ [(JStr s, d)]) = (scanned P L)(s \<mapsto> usage_list P L s @ [d])"
proof (rule ext)
  fix fn
  show "scanned P (L @ [(JStr s, d)]) fn = ((scanned P L)(s \<mapsto> usage_list P L s @ [d])) fn"
    using assms by (simp add: scanned_def usage_list_append usage_list_single)
qed

lemma add_if_known_hit:
  assumes "s \<noteq> []" and "s \<in> P"
  shows "add_if_known P (JStr s) (Inr d) (scanned P L) = Inr ((scanned P L)(s \<mapsto> usage_list P L s @ [d]))"
  using assms by (simp add: add_if_known_def add_def bindE_def scanned_def)

lemma add_if_known_skip:
  assumes "add_if_known P v t u = Inr u'" and "\<And>s. v = JStr s \<Longrightarrow> s = [] \<or> s \<notin> P"
  shows "u' = u"
proof (cases v)
  case (JStr s)
  with assms(2) have "s = [] \<or> s \<notin> P" by simp
  with assms(1) JStr show ?thesis
    by (simp add: add_if_known_def bindE_def split: if_splits)
next
  case (JArr xs)
  with assms(1) show ?thesis by (simp add: add_if_known_def bindE_def split: if_splits)
next
  case (JObj kvs)
  with assms(1) show ?thesis by (simp add: add_if_known_def bindE_def split: if_splits)
next
  case JNull
  with assms(1) show ?thesis by (simp add: add_if_known_def bindE_def split: if_splits)
next
  case (JBool b)
  with assms(1) show ?thesis by (simp add: add_if_known_def bindE_def split: if_splits)
next
  case (JInt i)
  with assms(1) show ?thesis by (simp add: add_if_known_def bindE_def split: if_splits)
next
  case (JFloat q repr)
  with assms(1) show ?thesis by (simp add: add_if_known_def bindE_def split: if_splits)
qed

lemma add_if_known_scanned:
  assumes "add_if_known P v (Inr d) (scanned P L) = Inr u'"
  shows "u' = scanned P (L @ [(v, d)])"
proof (cases "\<exists>s. v = JStr s \<and> s \<noteq> [] \<and> s \<in> P")
  case True
  then obtain s where s: "v = JStr s" "s \<noteq> []" "s \<in> P" by blast
  with assms show ?thesis by (simp add: add_if_known_hit scanned_hit)
next
  case False
  then have skip: "\<And>s. v = JStr s \<Longrightarrow> s = [] \<or> s \<notin> P" by blast
  from add_if_known_skip[OF assms skip] scanned_skip[OF skip] show ?thesis by simp
qed

lemma foldE_scanned:
  assumes step: "\<And>L x u'. x \<in> set xs \<Longrightarrow> f (scanned P L) x = Inr u' \<Longrightarrow> u' = scanned P (L @ g x)"
    and run: "foldE f (scanned P L) xs = Inr u'"
  shows "u' = scanned P (L @ concat (map g xs))"
  using assms
proof (induction xs arbitrary: L)
  case Nil
  then show ?case by simp
next
  case (Cons x xs)
  from Cons.prems(2) obtain u1 where u1: "f (scanned P L) x = Inr u1"
    and rest: "foldE f u1 xs = Inr u'"
    by (auto split: sum.splits)
  from Cons.prems(1)[OF _ u1] have "u1 = scanned P (L @ g x)" by simp
  with rest have "foldE f (scanned P (L @ g x)) xs = Inr u'" by simp
  from Cons.IH[OF _ this] Cons.prems(1) show ?case by simp
qed

lemma foldE_only_objects:
  assumes "foldE f u items = Inr u'" and "\<And>u x. (\<forall>kvs. x \<noteq> JObj kvs) \<Longrightarrow> f u x = Inl AttributeError"
  shows "\<forall>x \<in> set items. \<exists>kvs. x = JObj kvs"
  using assms
proof (induction items arbitrary: u)
  case Nil
  then show ?case by simp
next
  case (Cons x xs)
  from Cons.prems(1) obtain u1 where u1: "f u x = Inr u1" and rest: "foldE f u1 xs = Inr u'"
    by (auto split: sum.splits)
  from u1 Cons.prems(2)[of x u] have "\<exists>kvs. x = JObj kvs" by auto
  moreover from Cons.IH[OF rest Cons.prems(2)] have "\<forall>x \<in> set xs. \<exists>kvs. x = JObj kvs" by simp
  ultimately show ?case by simp
qed

lemma iter_elements:
  assumes "py_iter v = Inr items" and "\<forall>x \<in> set items. \<exists>kvs. x = JObj kvs"
  shows "items = elements v"
proof (cases v)
  case (JStr s)
  with assms show ?thesis by (cases s) (auto simp: elements_def)
next
  case (JObj kvs)
  with assms show ?thesis by (cases kvs) (auto simp: elements_def)
qed (use assms in \<open>auto simp: elements_def\<close>)


lemma concat_singletons: "concat (map (\<lambda>x. [h x]) xs) = map h xs"
  by (induction xs) simp_all

lemma get_or_empty_field:
  assumes "dict_get (py_or r (JObj [])) k JNull = Inr p"
  shows "p = field r k"
  using assms by (cases r) (auto simp: py_or_def field_def split: if_splits)

lemma get_default_field:
  assumes "dict_get (JObj kvs) rkey (JObj []) = Inr r"
  shows "field r k = field (field (JObj kvs) rkey) k"
  using assms by (auto simp: field_def split: option.splits)

lemma get_value_entities:
  assumes "dict_get (py_or c (JObj [])) ''value'' (JArr []) = Inr v"
  shows "elements v = entities c"
  using assms
  by (cases c) (auto simp: py_or_def field_def entities_def elements_def split: if_splits option.splits)

lemma get_forwards_elements:
  assumes "dict_get (JObj kvs) ''Forwards'' (JArr []) = Inr fw"
  shows "elements fw = elements (field (JObj kvs) ''Forwards'')"
  using assms by (auto simp: field_def elements_def split: option.splits)

lemma items_or_empty:
  assumes "dict_items (py_or m (JObj [])) = Inr items"
  shows "map (\<lambda>kv. (snd kv, ''MusicOnHold setting ('' @ fst kv @ '')'')) items = moh_refs m"
  using assms by (cases m) (auto simp: py_or_def moh_refs_def split: if_splits)

lemma forward_step_not_object:
  "(\<forall>kvs. x \<noteq> JObj kvs) \<Longrightarrow> forward_step P item u x = Inl AttributeError"
  by (cases x) (simp_all add: forward_step_def bindE_def)

lemma forward_step_scanned:
  assumes "forward_step P (JObj kvs) (scanned P L) forward = Inr u'"
  shows "u' = scanned P (L @ [(field forward ''CustomData'',
            ''Receptionist (forward key): '' @ label (JObj kvs))])"
proof -
  from assms obtain fkvs where f: "forward = JObj fkvs"
    by (auto simp: forward_step_def bindE_Inr_iff dest: dict_get_Inr)
  with assms show ?thesis
    by (simp add: forward_step_def bindE_Inr_iff describe_obj dict_get_JNull
             add_if_known_scanned del: dict_get.simps)
qed

lemma receptionist_step_not_object:
  "(\<forall>kvs. x \<noteq> JObj kvs) \<Longrightarrow> receptionist_step P u x = Inl AttributeError"
  by (cases x) (simp_all add: receptionist_step_def bindE_def)

lemma receptionist_step_scanned:
  assumes "receptionist_step P (scanned P L) item = Inr u'"
  shows "u' = scanned P (L @ receptionist_refs item)"
proof -
  from assms obtain kvs where item: "item = JObj kvs"
    by (auto simp: receptionist_step_def bindE_Inr_iff dest: dict_get_Inr)
  let ?r1 = "(field item ''PromptFilename'', ''Receptionist: '' @ label item)"
  from assms item obtain u1 fw forwards where
    u1: "add_if_known P (field item ''PromptFilename'') (Inr (''Receptionist: '' @ label item))
           (scanned P L) = Inr u1"
    and fw: "dict_get (JObj kvs) ''Forwards'' (JArr []) = Inr fw"
    and it: "py_iter fw = Inr forwards"
    and run: "foldE (forward_step P item) u1 forwards = Inr u'"
    by (auto simp: receptionist_step_def bindE_Inr_iff describe_obj dict_get_JNull
             simp del: dict_get.simps)
  from add_if_known_scanned[OF u1] have u1': "u1 = scanned P (L @ [?r1])" .
  from foldE_only_objects[OF run forward_step_not_object]
  have objs: "\<forall>x \<in> set forwards. \<exists>kvs. x = JObj kvs" by simp
  from iter_elements[OF it objs] get_forwards_elements[OF fw] item
  have fwds: "forwards = elements (field item ''Forwards'')" by simp
  have "u' = scanned P ((L @ [?r1]) @ concat (map (\<lambda>forward. [(field forward ''CustomData'',
            ''Receptionist (forward key): '' @ label item)]) forwards))"
  proof (rule foldE_scanned[where f = "forward_step P item"])
    show "foldE (forward_step P item) (scanned P (L @ [?r1])) forwards = Inr u'"
      using run u1' by simp
  next
    fix L' x u''
    assume "forward_step P item (scanned P L') x = Inr u''"
    with item have "forward_step P (JObj kvs) (scanned P L') x = Inr u''" by simp
    from forward_step_scanned[OF this] item
    show "u'' = scanned P (L' @ [(field x ''CustomData'',
        ''Receptionist (forward key): '' @ label item)])"
      by simp
  qed
  then show ?thesis
    by (simp add: receptionist_refs_def concat_singletons fwds)
qed

lemma file_key_step_scanned:
  assumes "file_key_step P (JObj kvs) (scanned P L) key = Inr u'"
  shows "u' = scanned P (L @ [(field (JObj kvs) key, ''Queue '' @ key @ '': '' @ label (JObj kvs))])"
  using assms
  by (simp add: file_key_step_def bindE_Inr_iff describe_obj dict_get_JNull
           add_if_known_scanned del: dict_get.simps)

lemma route_step_not_object:
  "(\<forall>kvs. x \<noteq> JObj kvs) \<Longrightarrow> route_step kind P x u rkey = Inl AttributeError"
  by (cases x) (simp_all add: route_step_def bindE_def)

lemma route_step_scanned:
  assumes "route_step kind P (JObj kvs) (scanned P L) rkey = Inr u'"
  shows "u' = scanned P (L @ [(field (field (JObj kvs) rkey) ''Prompt'',
            kind @ '' route '' @ rkey @ '': '' @ label (JObj kvs))])"
proof -
  from assms obtain r prompt where
    r: "dict_get (JObj kvs) rkey (JObj []) = Inr r"
    and p: "dict_get (py_or r (JObj [])) ''Prompt'' JNull = Inr prompt"
    and a: "add_if_known P prompt (Inr (kind @ '' route '' @ rkey @ '': '' @ label (JObj kvs)))
              (scanned P L) = Inr u'"
    by (auto simp: route_step_def bindE_Inr_iff describe_obj simp del: dict_get.simps)
  from get_or_empty_field[OF p] get_default_field[OF r]
  have "prompt = field (field (JObj kvs) rkey) ''Prompt''" by simp
  with add_if_known_scanned[OF a] show ?thesis by simp
qed

lemma routes_scanned:
  assumes "foldE (route_step kind P (JObj kvs)) (scanned P L) rkeys = Inr u'"
  shows "u' = scanned P (L @ route_refs kind rkeys (JObj kvs))"
proof -
  have "u' = scanned P (L @ concat (map (\<lambda>rkey. [(field (field (JObj kvs) rkey) ''Prompt'',
            kind @ '' route '' @ rkey @ '': '' @ label (JObj kvs))]) rkeys))"
    by (rule foldE_scanned[OF _ assms]) (rule route_step_scanned)
  then show ?thesis by (simp add: route_refs_def concat_singletons)
qed

lemma queue_step_not_object:
  "(\<forall>kvs. x \<noteq> JObj kvs) \<Longrightarrow> queue_step P u x = Inl AttributeError"
  by (cases x) (simp_all add: queue_step_def file_key_step_def queue_file_keys_def bindE_def)

lemma queue_step_scanned:
  assumes "queue_step P (scanned P L) item = Inr u'"
  shows "u' = scanned P (L @ queue_refs item)"
proof -
  have "\<exists>kvs. item = JObj kvs"
  proof (rule ccontr)
    assume "\<not> ?thesis"
    then have "queue_step P (scanned P L) item = Inl AttributeError"
      by (simp add: queue_step_not_object)
    with assms show False by simp
  qed
  then obtain kvs where item: "item = JObj kvs" ..
  from assms item obtain u1 where
    files: "foldE (file_key_step P (JObj kvs)) (scanned P L) queue_file_keys = Inr u1"
    and routes: "foldE (route_step ''Queue'' P (JObj kvs)) u1 route_keys = Inr u'"
    by (auto simp: queue_step_def bindE_Inr_iff)
  have u1: "u1 = scanned P (L @ concat (map (\<lambda>key. [(field (JObj kvs) key,
              ''Queue '' @ key @ '': '' @ label (JObj kvs))]) queue_file_keys))"
    by (rule foldE_scanned[OF _ files]) (rule file_key_step_scanned)
  from routes_scanned[OF routes[unfolded u1]] item show ?thesis
    by (simp add: queue_refs_def concat_singletons queue_file_keys_def route_keys_def)
qed

lemma group_step_not_object:
  "(\<forall>kvs. x \<noteq> JObj kvs) \<Longrightarrow> group_step P u x = Inl AttributeError"
  by (cases x) (simp_all add: group_step_def route_step_def group_route_keys_def bindE_def)

lemma group_step_scanned:
  assumes "group_step P (scanned P L) item = Inr u'"
  shows "u' = scanned P (L @ group_refs item)"
proof -
  have "\<exists>kvs. item = JObj kvs"
  proof (rule ccontr)
    assume "\<not> ?thesis"
    then have "group_step P (scanned P L) item = Inl AttributeError"
      by (simp add: group_step_not_object)
    with assms show False by simp
  qed
  then obtain kvs where item: "item = JObj kvs" ..
  from assms item have "foldE (route_step ''Group'' P (JObj kvs)) (scanned P L) group_route_keys = Inr u'"
    by (simp add: group_step_def)
  from routes_scanned[OF this] item show ?thesis
    by (simp add: group_refs_def group_route_keys_def)
qed

lemma moh_step_scanned:
  assumes "moh_step P (scanned P L) kv = Inr u'"
  shows "u' = scanned P (L @ [(snd kv, ''MusicOnHold setting ('' @ fst kv @ '')'')])"
  using assms unfolding moh_step_def by (rule add_if_known_scanned)

lemma scan_setting_scanned:
  assumes "scan_setting P text settings (scanned P L) = Inr u'"
  shows "u' = scanned P (L @ [(field settings ''MusicOnHold'', text)])"
proof -
  from assms obtain moh where
    m: "dict_get (py_or settings (JObj [])) ''MusicOnHold'' JNull = Inr moh"
    and a: "add_if_known P moh (Inr text) (scanned P L) = Inr u'"
    by (auto simp: scan_setting_def bindE_Inr_iff)
  from add_if_known_scanned[OF a] get_or_empty_field[OF m] show ?thesis by simp
qed

lemma scan_collection_scanned:
  assumes fails: "\<And>u x. (\<forall>kvs. x \<noteq> JObj kvs) \<Longrightarrow> body u x = Inl AttributeError"
    and step: "\<And>L x u'. body (scanned P L) x = Inr u' \<Longrightarrow> u' = scanned P (L @ g x)"
    and run: "scan_collection body collection (scanned P L) = Inr u'"
  shows "u' = scanned P (L @ concat (map g (entities collection)))"
proof -
  from run obtain v items where
    v: "dict_get (py_or collection (JObj [])) ''value'' (JArr []) = Inr v"
    and it: "py_iter v = Inr items"
    and loop: "foldE body (scanned P L) items = Inr u'"
    by (auto simp: scan_collection_def bindE_Inr_iff)
  from foldE_only_objects[OF loop fails] have "\<forall>x \<in> set items. \<exists>kvs. x = JObj kvs" by simp
  from iter_elements[OF it this] get_value_entities[OF v] have "items = entities collection"
    by simp
  with foldE_scanned[OF step loop] show ?thesis by simp
qed

lemma filter_scanned:
  "(\<lambda>k. case scanned P L k of Some v \<Rightarrow> (if v \<noteq> [] then Some v else None) | None \<Rightarrow> None)
     = usage_map P L"
proof (rule ext)
  fix k
  have "k \<notin> P \<Longrightarrow> usage_list P L k = []"
    by (simp add: usage_list_def matches_def)
  then show "(case scanned P L k of Some v \<Rightarrow> (if v \<noteq> [] then Some v else None) | None \<Rightarrow> None)
     = usage_map P L k"
    by (auto simp: scanned_def usage_map_def)
qed

lemma scanned_Nil: "(\<lambda>fn. if fn \<in> P then Some [] else None) = scanned P []"
  by (rule ext) (simp add: scanned_def usage_list_def)

lemma moh_loop_scanned:
  assumes "foldE (moh_step P) (scanned P L) items = Inr u'"
  shows "u' = scanned P (L @ map (\<lambda>kv. (snd kv, ''MusicOnHold setting ('' @ fst kv @ '')'')) items)"
proof -
  have "u' = scanned P (L @ concat (map (\<lambda>kv. [(snd kv, ''MusicOnHold setting ('' @ fst kv @ '')'')]) items))"
    by (rule foldE_scanned[OF _ assms]) (rule moh_step_scanned)
  then show ?thesis by (simp add: concat_singletons)
qed

lemma gather_refines:
  assumes "gather_prompt_usages P r q g m c cp = Inr u"
  shows "u = usage_map P (references r q g m c cp)"
proof -
  from assms obtain u1 u2 u3 items u4 u5 u6 where
    s1: "scan_collection (receptionist_step P) r (scanned P []) = Inr u1"
    and s2: "scan_collection (queue_step P) q u1 = Inr u2"
    and s3: "scan_collection (group_step P) g u2 = Inr u3"
    and s4: "dict_items (py_or m (JObj [])) = Inr items"
    and s5: "foldE (moh_step P) u3 items = Inr u4"
    and s6: "scan_setting P ''Conference: MusicOnHold'' c u4 = Inr u5"
    and s7: "scan_setting P ''CallParking: MusicOnHold'' cp u5 = Inr u6"
    and u: "u = (\<lambda>k. case u6 k of Some v \<Rightarrow> (if v \<noteq> [] then Some v else None) | None \<Rightarrow> None)"
    unfolding gather_prompt_usages_def scanned_Nil bindE_Inr_iff by blast
  let ?L1 = "concat (map receptionist_refs (entities r))"
  let ?L2 = "?L1 @ concat (map queue_refs (entities q))"
  let ?L3 = "?L2 @ concat (map group_refs (entities g))"
  let ?L4 = "?L3 @ moh_refs m"
  let ?L5 = "?L4 @ conference_refs c"
  let ?L6 = "?L5 @ call_parking_refs cp"
  from scan_collection_scanned[OF receptionist_step_not_object receptionist_step_scanned s1]
  have u1: "u1 = scanned P ?L1" by simp
  from scan_collection_scanned[OF queue_step_not_object queue_step_scanned s2[unfolded u1]]
  have u2: "u2 = scanned P ?L2" by simp
  from scan_collection_scanned[OF group_step_not_object group_step_scanned s3[unfolded u2]]
  have u3: "u3 = scanned P ?L3" by simp
  from moh_loop_scanned[OF s5[unfolded u3]]
  have u4: "u4 = scanned P ?L4"
    unfolding items_or_empty[OF s4] by simp
  from scan_setting_scanned[OF s6[unfolded u4]]
  have u5: "u5 = scanned P ?L5" by (simp add: conference_refs_def)
  from scan_setting_scanned[OF s7[unfolded u5]]
  have u6: "u6 = scanned P ?L6" by (simp add: call_parking_refs_def)
  show ?thesis unfolding u u6 filter_scanned by (simp add: references_def)
qed

subsection \<open>The resolver returns on well-shaped snapshots\<close>

text \<open>
  On a snapshot of the accepted shape no call raises: absent keys, null values and empty
  strings in the filename-bearing fields, absent \<open>Forwards\<close>, and absent or null routes are
  all passed over.
\<close>

lemma add_if_known_total:
  assumes "field_ok v"
  shows "\<exists>u'. add_if_known P v (Inr d) u = Inr u'"
  using assms
  by (cases v) (simp_all add: field_ok_def add_if_known_def add_def bindE_def)

lemma foldE_total:
  assumes "\<And>x u. x \<in> set xs \<Longrightarrow> \<exists>u'. f u x = Inr u'"
  shows "\<exists>u'. foldE f u xs = Inr u'"
  using assms
proof (induction xs arbitrary: u)
  case Nil
  then show ?case by simp
next
  case (Cons x xs)
  from Cons.prems[of x u] obtain u1 where u1: "f u x = Inr u1" by auto
  from Cons.IH[of u1] Cons.prems obtain u' where "foldE f u1 xs = Inr u'" by auto
  with u1 show ?case by simp
qed

lemma is_record_iff: "is_record x \<longleftrightarrow> (\<exists>kvs. x = JObj kvs)"
  by (cases x) (simp_all add: is_record_def)

lemma forward_step_total:
  assumes "forward_ok forward"
  shows "\<exists>u'. forward_step P (JObj kvs) u forward = Inr u'"
proof -
  from assms obtain fkvs where f: "forward = JObj fkvs" and ok: "field_ok (field forward ''CustomData'')"
    by (auto simp: forward_ok_def is_record_iff)
  have "forward_step P (JObj kvs) u forward
      = add_if_known P (field forward ''CustomData'')
          (Inr (''Receptionist (forward key): '' @ label (JObj kvs))) u"
    unfolding f forward_step_def dict_get_JNull describe_obj by (simp add: bindE_def)
  with add_if_known_total[OF ok] show ?thesis by simp
qed

lemma receptionist_step_total:
  assumes "receptionist_ok item"
  shows "\<exists>u'. receptionist_step P u item = Inr u'"
proof -
  from assms obtain kvs where item: "item = JObj kvs"
    and ok: "field_ok (field item ''PromptFilename'')" and fw: "forwards_ok item"
    by (auto simp: receptionist_ok_def is_record_iff)
  from add_if_known_total[OF ok] obtain u1 where
    u1: "add_if_known P (field item ''PromptFilename'') (Inr (''Receptionist: '' @ label item)) u = Inr u1"
    by blast
  from fw item obtain fs where fs: "dict_get item ''Forwards'' (JArr []) = Inr (JArr fs)"
    and all: "list_all forward_ok fs"
    by (auto simp: forwards_ok_def split: option.splits json.splits)
  have "\<exists>u'. foldE (forward_step P item) u1 fs = Inr u'"
  proof (rule foldE_total)
    fix x u2 assume "x \<in> set fs"
    with all have "forward_ok x" by (simp add: list_all_iff)
    then show "\<exists>u'. forward_step P item u2 x = Inr u'"
      unfolding item by (rule forward_step_total)
  qed
  then obtain u' where "foldE (forward_step P item) u1 fs = Inr u'" ..
  with u1 fs item have "receptionist_step P u item = Inr u'"
    by (simp add: receptionist_step_def dict_get_JNull describe_obj bindE_def del: dict_get.simps)
  then show ?thesis by blast
qed

lemma file_key_step_total:
  assumes "field_ok (field (JObj kvs) key)"
  shows "\<exists>u'. file_key_step P (JObj kvs) u key = Inr u'"
proof -
  have "file_key_step P (JObj kvs) u key
      = add_if_known P (field (JObj kvs) key) (Inr ((''Queue '' @ key @ '': '') @ label (JObj kvs))) u"
    unfolding file_key_step_def dict_get_JNull describe_obj by (simp add: bindE_def)
  with add_if_known_total[OF assms] show ?thesis by simp
qed

lemma route_lookup:
  assumes "route_ok (field (JObj kvs) rkey)"
  shows "\<exists>r. dict_get (JObj kvs) rkey (JObj []) = Inr r
           \<and> dict_get (py_or r (JObj [])) ''Prompt'' JNull = Inr (field r ''Prompt'')
           \<and> field_ok (field r ''Prompt'')"
proof (cases "map_of kvs rkey")
  case None
  then show ?thesis by (simp add: py_or_def field_def field_ok_def)
next
  case (Some r)
  then have r: "field (JObj kvs) rkey = r" by (simp add: field_def)
  show ?thesis
  proof (cases "truthy r")
    case True
    with assms r obtain rkvs where "r = JObj rkvs" and "field_ok (field r ''Prompt'')"
      by (auto simp: route_ok_def is_record_iff)
    with Some True show ?thesis by (simp add: py_or_def field_def)
  next
    case False
    then have "field r ''Prompt'' = JNull" by (cases r) (simp_all add: field_def)
    with Some False show ?thesis by (simp add: py_or_def field_ok_def)
  qed
qed

lemma route_step_total:
  assumes "route_ok (field (JObj kvs) rkey)"
  shows "\<exists>u'. route_step kind P (JObj kvs) u rkey = Inr u'"
proof -
  from route_lookup[OF assms] obtain r where
    r: "dict_get (JObj kvs) rkey (JObj []) = Inr r"
    and p: "dict_get (py_or r (JObj [])) ''Prompt'' JNull = Inr (field r ''Prompt'')"
    and ok: "field_ok (field r ''Prompt'')"
    by blast
  have "route_step kind P (JObj kvs) u rkey
      = add_if_known P (field r ''Prompt'')
          (Inr ((kind @ '' route '' @ rkey @ '': '') @ label (JObj kvs))) u"
    using r p by (simp add: route_step_def describe_obj bindE_def del: dict_get.simps)
  with add_if_known_total[OF ok] show ?thesis by simp
qed

lemma queue_step_total:
  assumes "queue_ok item"
  shows "\<exists>u'. queue_step P u item = Inr u'"
proof -
  from assms obtain kvs where item: "item = JObj kvs"
    and files: "list_all (\<lambda>key. field_ok (field item key)) queue_file_keys"
    and routes: "list_all (\<lambda>rkey. route_ok (field item rkey)) route_keys"
    by (auto simp: queue_ok_def is_record_iff)
  have "\<exists>u1. foldE (file_key_step P item) u queue_file_keys = Inr u1"
  proof (rule foldE_total)
    fix key u2 assume "key \<in> set queue_file_keys"
    with files have "field_ok (field (JObj kvs) key)" by (simp add: list_all_iff item)
    then show "\<exists>u'. file_key_step P item u2 key = Inr u'"
      unfolding item by (rule file_key_step_total)
  qed
  then obtain u1 where u1: "foldE (file_key_step P item) u queue_file_keys = Inr u1" ..
  have "\<exists>u'. foldE (route_step ''Queue'' P item) u1 route_keys = Inr u'"
  proof (rule foldE_total)
    fix rkey u2 assume "rkey \<in> set route_keys"
    with routes have "route_ok (field (JObj kvs) rkey)" by (simp add: list_all_iff item)
    then show "\<exists>u'. route_step ''Queue'' P item u2 rkey = Inr u'"
      unfolding item by (rule route_step_total)
  qed
  then obtain u' where "foldE (route_step ''Queue'' P item) u1 route_keys = Inr u'" ..
  with u1 have "queue_step P u item = Inr u'" by (simp add: queue_step_def bindE_def)
  then show ?thesis by blast
qed

lemma group_step_total:
  assumes "group_ok item"
  shows "\<exists>u'. group_step P u item = Inr u'"
proof -
  from assms obtain kvs where item: "item = JObj kvs"
    and routes: "list_all (\<lambda>rkey. route_ok (field item rkey)) group_route_keys"
    by (auto simp: group_ok_def is_record_iff)
  show ?thesis unfolding group_step_def
  proof (rule foldE_total)
    fix rkey u2 assume "rkey \<in> set group_route_keys"
    with routes have "route_ok (field (JObj kvs) rkey)" by (simp add: list_all_iff item)
    then show "\<exists>u'. route_step ''Group'' P item u2 rkey = Inr u'"
      unfolding item by (rule route_step_total)
  qed
qed

lemma scan_collection_total:
  assumes ok: "collection_ok item_ok collection"
    and body: "\<And>x u. item_ok x \<Longrightarrow> \<exists>u'. body u x = Inr u'"
  shows "\<exists>u'. scan_collection body collection u = Inr u'"
proof -
  have "\<exists>items. dict_get (py_or collection (JObj [])) ''value'' (JArr []) = Inr (JArr items)
          \<and> list_all item_ok items"
  proof (cases "truthy collection")
    case False
    then show ?thesis by (simp add: py_or_def)
  next
    case True
    with ok show ?thesis
      by (auto simp: collection_ok_def py_or_def split: json.splits option.splits)
  qed
  then obtain items where v: "dict_get (py_or collection (JObj [])) ''value'' (JArr []) = Inr (JArr items)"
    and all: "list_all item_ok items" by blast
  have "\<exists>u'. foldE body u items = Inr u'"
  proof (rule foldE_total)
    fix x u2 assume "x \<in> set items"
    with all have "item_ok x" by (simp add: list_all_iff)
    then show "\<exists>u'. body u2 x = Inr u'" by (rule body)
  qed
  then obtain u' where "foldE body u items = Inr u'" ..
  with v have "scan_collection body collection u = Inr u'"
    by (simp add: scan_collection_def bindE_def)
  then show ?thesis by blast
qed

lemma moh_total:
  assumes "moh_ok m"
  shows "\<exists>items u'. dict_items (py_or m (JObj [])) = Inr items \<and> foldE (moh_step P) u items = Inr u'"
proof -
  have "\<exists>items. dict_items (py_or m (JObj [])) = Inr items \<and> list_all (\<lambda>kv. field_ok (snd kv)) items"
  proof (cases "truthy m")
    case False
    then show ?thesis by (simp add: py_or_def)
  next
    case True
    with assms show ?thesis by (auto simp: moh_ok_def py_or_def split: json.splits)
  qed
  then obtain items where i: "dict_items (py_or m (JObj [])) = Inr items"
    and all: "list_all (\<lambda>kv. field_ok (snd kv)) items" by blast
  have "\<exists>u'. foldE (moh_step P) u items = Inr u'"
  proof (rule foldE_total)
    fix kv u2 assume "kv \<in> set items"
    with all have "field_ok (snd kv)" by (simp add: list_all_iff)
    then show "\<exists>u'. moh_step P u2 kv = Inr u'"
      unfolding moh_step_def by (rule add_if_known_total)
  qed
  with i show ?thesis by blast
qed

lemma scan_setting_total:
  assumes "setting_ok s"
  shows "\<exists>u'. scan_setting P text s u = Inr u'"
proof -
  have "\<exists>v. dict_get (py_or s (JObj [])) ''MusicOnHold'' JNull = Inr v \<and> field_ok v"
  proof (cases "truthy s")
    case False
    then show ?thesis by (simp add: py_or_def field_ok_def)
  next
    case True
    with assms obtain kvs where "s = JObj kvs" and "field_ok (field s ''MusicOnHold'')"
      by (auto simp: setting_ok_def is_record_iff)
    with True show ?thesis by (simp add: py_or_def field_def)
  qed
  then obtain v where v: "dict_get (py_or s (JObj [])) ''MusicOnHold'' JNull = Inr v"
    and ok: "field_ok v" by blast
  from add_if_known_total[OF ok] obtain u' where "add_if_known P v (Inr text) u = Inr u'" by blast
  with v have "scan_setting P text s u = Inr u'" by (simp add: scan_setting_def bindE_def)
  then show ?thesis by blast
qed

lemma gather_total:
  assumes "collection_ok receptionist_ok r" and "collection_ok queue_ok q"
    and "collection_ok group_ok g" and "moh_ok m" and "setting_ok c" and "setting_ok cp"
  shows "\<exists>u. gather_prompt_usages P r q g m c cp = Inr u"
proof -
  let ?u0 = "\<lambda>fn. if fn \<in> P then Some [] else None"
  from scan_collection_total[where body = "receptionist_step P", OF assms(1) receptionist_step_total]
  obtain u1 where s1: "scan_collection (receptionist_step P) r ?u0 = Inr u1" by blast
  from scan_collection_total[where body = "queue_step P", OF assms(2) queue_step_total]
  obtain u2 where s2: "scan_collection (queue_step P) q u1 = Inr u2" by blast
  from scan_collection_total[where body = "group_step P", OF assms(3) group_step_total]
  obtain u3 where s3: "scan_collection (group_step P) g u2 = Inr u3" by blast
  from moh_total[OF assms(4)]
  obtain items u4 where s4: "dict_items (py_or m (JObj [])) = Inr items"
    and s5: "foldE (moh_step P) u3 items = Inr u4" by blast
  from scan_setting_total[OF assms(5)]
  obtain u5 where s6: "scan_setting P ''Conference: MusicOnHold'' c u4 = Inr u5" by blast
  from scan_setting_total[OF assms(6)]
  obtain u6 where s7: "scan_setting P ''CallParking: MusicOnHold'' cp u5 = Inr u6" by blast
  show ?thesis
    using s1 s2 s3 s4 s5 s6 s7 by (simp add: gather_prompt_usages_def bindE_def)
qed

lemma absent_collection_ok: "absent_or_empty x \<Longrightarrow> collection_ok item_ok x"
  by (auto simp: absent_or_empty_def collection_ok_def)

lemma absent_moh_ok: "absent_or_empty x \<Longrightarrow> moh_ok x"
  by (auto simp: absent_or_empty_def moh_ok_def field_ok_def)

lemma absent_setting_ok: "absent_or_empty x \<Longrightarrow> setting_ok x"
  by (auto simp: absent_or_empty_def setting_ok_def field_ok_def field_def is_record_def)

lemma absent_no_entities: "absent_or_empty x \<Longrightarrow> entities x = []"
  by (auto simp: absent_or_empty_def entities_def elements_def field_def)

lemma absent_no_moh_match: "absent_or_empty x \<Longrightarrow> usage_list P (moh_refs x) fn = []"
  by (auto simp: absent_or_empty_def moh_refs_def usage_list_def matches_def)

lemma absent_no_setting_match:
  "absent_or_empty x \<Longrightarrow> usage_list P [(field x ''MusicOnHold'', d)] fn = []"
  by (auto simp: absent_or_empty_def field_def usage_list_def matches_def)

subsection \<open>Which computations make requests\<close>

text \<open>
  Every computation of the model leaves the trace it was given and adds to it; the
  computations of the report from the cache add no request.
\<close>

lemma offline_returnIO: "offline (returnIO x)"
  by (simp add: offline_def returnIO_def network_calls_def)

lemma offline_liftE: "offline (liftE r)"
  by (simp add: offline_def liftE_def network_calls_def)

lemma offline_emit: "\<not> is_http ev \<Longrightarrow> offline (emit ev)"
  by (simp add: offline_def emit_def network_calls_def)

lemma offline_bindIO:
  assumes m: "offline m" and f: "\<And>x. offline (f x)"
  shows "offline (bindIO m f)"
  unfolding offline_def
proof
  fix t
  from m obtain new where new: "fst (m t) = t @ new" "network_calls new = []"
    unfolding offline_def by blast
  show "\<exists>new. fst (bindIO m f t) = t @ new \<and> network_calls new = []"
  proof (cases "snd (m t)")
    case (Inl e)
    with new have "fst (bindIO m f t) = t @ new"
      by (cases "m t") (simp add: bindIO_def)
    with new show ?thesis by blast
  next
    case (Inr x)
    from f[of x] obtain new' where new': "fst (f x (t @ new)) = (t @ new) @ new'"
      "network_calls new' = []"
      unfolding offline_def by blast
    from Inr new have "fst (bindIO m f t) = fst (f x (t @ new))"
      by (cases "m t") (simp add: bindIO_def)
    with new' have "fst (bindIO m f t) = t @ (new @ new')" by simp
    moreover from new new' have "network_calls (new @ new') = []"
      by (simp add: network_calls_def)
    ultimately show ?thesis by blast
  qed
qed

lemma offline_thenIO: "offline m \<Longrightarrow> offline n \<Longrightarrow> offline (thenIO m n)"
  unfolding thenIO_def by (rule offline_bindIO)

lemma offline_forIO:
  assumes "\<And>x. offline (body x)"
  shows "offline (forIO body xs)"
  by (induction xs) (simp_all add: offline_returnIO offline_thenIO assms)

lemma offline_extends: "offline m \<Longrightarrow> extends m"
  unfolding offline_def extends_def by blast

lemma extends_bindIO:
  assumes m: "extends m" and f: "\<And>x. extends (f x)"
  shows "extends (bindIO m f)"
  unfolding extends_def
proof
  fix t
  from m obtain new where new: "fst (m t) = t @ new"
    unfolding extends_def by blast
  show "\<exists>new. fst (bindIO m f t) = t @ new"
  proof (cases "snd (m t)")
    case (Inl e)
    with new have "fst (bindIO m f t) = t @ new"
      by (cases "m t") (simp add: bindIO_def)
    then show ?thesis by blast
  next
    case (Inr x)
    from f[of x] obtain new' where new': "fst (f x (t @ new)) = (t @ new) @ new'"
      unfolding extends_def by blast
    from Inr new have "fst (bindIO m f t) = fst (f x (t @ new))"
      by (cases "m t") (simp add: bindIO_def)
    with new' have "fst (bindIO m f t) = t @ (new @ new')" by simp
    then show ?thesis by blast
  qed
qed

lemma extends_thenIO: "extends m \<Longrightarrow> extends n \<Longrightarrow> extends (thenIO m n)"
  unfolding thenIO_def by (rule extends_bindIO)

lemma extends_mapIO:
  assumes "\<And>x. extends (body x)"
  shows "extends (mapIO body xs)"
  by (induction xs) (simp_all add: offline_extends offline_returnIO extends_bindIO assms)

lemma extends_api_get: "extends (api_get w client path params)"
  by (simp add: extends_def api_get_def)

lemmas offline_intros = offline_returnIO offline_liftE offline_emit offline_bindIO
  offline_thenIO offline_forIO

lemmas extends_intros = extends_api_get extends_bindIO extends_thenIO extends_mapIO

lemma offline_load_json_file: "offline (load_json_file w path)"
  by (simp add: load_json_file_def offline_intros)

lemma offline_ld: "offline (ld w output_dir fname)"
  unfolding ld_def by (intro offline_intros offline_load_json_file)

lemma offline_print_report: "offline (print_report usages)"
  unfolding print_report_def by (auto intro!: offline_intros)

lemma offline_resolve_and_print: "offline (resolve_and_print p r q g m c cp)"
  unfolding resolve_and_print_def by (intro offline_intros offline_print_report)

lemma offline_report_from_output: "offline (report_from_output w output_dir)"
  unfolding report_from_output_def by (intro offline_intros offline_ld offline_resolve_and_print)

lemma offline_dump: "offline (dump w path x)"
  unfolding dump_def by (intro offline_intros) simp

lemma offline_print_app: "offline (print_app item)"
  unfolding print_app_def by (auto intro!: offline_intros)

lemma extends_if: "extends a \<Longrightarrow> extends b \<Longrightarrow> extends (if c then a else b)"
  by simp

lemma extends_liftE: "extends (liftE r)"
  by (rule offline_extends[OF offline_liftE])

lemma extends_returnIO: "extends (returnIO x)"
  by (rule offline_extends[OF offline_returnIO])

lemma extends_fetch_files: "extends (fetch_files w client item)"
  unfolding fetch_files_def
  by (intro extends_intros extends_if extends_liftE)

lemma extends_call_flow_apps: "extends (call_flow_apps w client)"
  unfolding call_flow_apps_def
  by (intro extends_intros extends_fetch_files extends_liftE extends_returnIO)

lemma extends_print_call_flow_apps: "extends (print_call_flow_apps w client)"
  unfolding print_call_flow_apps_def
  by (intro extends_intros extends_call_flow_apps extends_liftE extends_returnIO
        offline_extends[OF offline_forIO] offline_print_app offline_extends[OF offline_emit]) simp

lemma first_request:
  assumes "\<And>x. extends (f x)"
  shows "\<exists>rest. fst (bindIO (api_get w client path params) f [])
           = HttpGet (fqdn client @ path) params # rest"
proof (cases "http_response w 0 (token client) (fqdn client @ path) params")
  case (Inl e)
  then show ?thesis by (simp add: bindIO_def api_get_def)
next
  case (Inr x)
  from assms[of x] obtain new where
    "fst (f x [HttpGet (fqdn client @ path) params]) = [HttpGet (fqdn client @ path) params] @ new"
    unfolding extends_def by blast
  with Inr show ?thesis by (simp add: bindIO_def api_get_def)
qed

lemma report_from_api_first_request:
  "\<exists>rest. trace_of (report_from_api w client)
     = HttpGet (fqdn client @ ''/xapi/v1/CustomPrompts'') [(''$select'', ''DisplayName'')] # rest"
  unfolding trace_of_def report_from_api_def custom_prompts_def Let_def
  apply (rule first_request)
  apply (intro extends_bindIO extends_thenIO extends_print_call_flow_apps extends_call_flow_apps
      offline_extends[OF offline_dump] offline_extends[OF offline_resolve_and_print]
      extends_liftE offline_extends[OF offline_emit])
                      apply (simp_all add: receptionists_def queues_def groups_def playlists_def
      conference_settings_def music_on_hold_settings_def call_parking_settings_def extends_api_get)
  done

subsection \<open>The store model and the functional model agree\<close>

lemma at_store_Inr [simp]: "at_store h (Inr x) = Inr x"
  by (simp add: at_store_def)

lemma rel_at_store:
  assumes "take (length h0) h = h0" and "\<And>x. rel_sum (same_error h0) R (f x) (g x)"
  shows "rel_sum (same_error h0) R (bindE (at_store h m) f) (bindE m g)"
  using assms by (cases m) (simp_all add: bindE_def at_store_def same_error_def)

lemma rel_bindE:
  assumes "rel_sum E R m m'" and "\<And>h u. R h u \<Longrightarrow> rel_sum E R' (f h) (g u)"
  shows "rel_sum E R' (bindE m f) (bindE m' g)"
  using assms by (cases m; cases m') (simp_all add: bindE_def)

lemma rel_foldE:
  assumes "\<And>h u x. R h u \<Longrightarrow> rel_sum E R (f h x) (g u x)" and "R h u"
  shows "rel_sum E R (foldE f h xs) (foldE g u xs)"
  using assms(2)
proof (induction xs arbitrary: h u)
  case Nil
  then show ?case by simp
next
  case (Cons x xs)
  show ?case
  proof (cases "f h x")
    case (Inl e)
    with assms(1)[OF Cons.prems, of x] show ?thesis by (cases "g u x") simp_all
  next
    case (Inr h')
    with assms(1)[OF Cons.prems, of x] obtain u' where "g u x = Inr u'" and "R h' u'"
      by (cases "g u x") simp_all
    with Inr Cons.IH[of h' u'] show ?thesis by simp
  qed
qed

lemma bindE_assoc: "bindE (bindE m f) g = bindE m (\<lambda>x. bindE (f x) g)"
  by (cases m) (simp_all add: bindE_def)

lemma names_at_distinct: "names_at h a = Inr ns \<Longrightarrow> distinct ns"
  by (auto simp: names_at_def split: option.splits cell.splits)

lemma names_at_less: "names_at h a = Inr ns \<Longrightarrow> a < length h"
  by (auto simp: names_at_def cell_at_def split: option.splits cell.splits if_splits)

lemma coll_at_less: "coll_at h a = Inr x \<Longrightarrow> a < length h"
  by (auto simp: coll_at_def cell_at_def split: option.splits cell.splits if_splits)

lemma sim_cell_old:
  assumes "sim h0 ns h u" and "a < length h0"
  shows "cell_at h a = cell_at h0 a"
proof -
  from assms(1) have t: "take (length h0) h = h0" and l: "length h0 \<le> length h"
    by (simp_all add: sim_def)
  from assms(2) have "take (length h0) h ! a = h ! a" by simp
  with t have "h ! a = h0 ! a" by simp
  with assms(2) l show ?thesis by (simp add: cell_at_def)
qed

lemma sim_frame: "sim h0 ns h u \<Longrightarrow> take (length h0) h = h0"
  by (simp add: sim_def)

lemma sim_names:
  assumes "sim h0 ns h u" and "names_at h0 pa = Inr ns'"
  shows "names_at h pa = Inr ns'"
  using sim_cell_old[OF assms(1) names_at_less[OF assms(2)]] assms(2)
  by (simp add: names_at_def)

lemma sim_coll:
  assumes "sim h0 ns h u" and "coll_at h0 a = Inr x"
  shows "coll_at h a = Inr x"
  using sim_cell_old[OF assms(1) coll_at_less[OF assms(2)]] assms(2)
  by (simp add: coll_at_def)

lemma sim_dict:
  assumes "sim h0 ns h u"
  shows "cell_at h (length h0 + length ns)
           = Some (Dict (zip ns [length h0..<length h0 + length ns]))"
  using assms by (simp add: sim_def cell_at_def)

lemma sim_lines:
  assumes "sim h0 ns h u" and "i < length ns"
  shows "cell_at h (length h0 + i)
           = Some (Lines (case u (ns ! i) of Some l \<Rightarrow> l | None \<Rightarrow> []))"
  using assms by (simp add: sim_def cell_at_def)

lemma zip_lookup_None:
  "s \<notin> set ns \<Longrightarrow> map_of (zip ns [n..<n + length ns]) s = None"
  by (auto simp: map_of_eq_None_iff dest: set_zip_leftD)

lemma zip_lookup_Some:
  assumes "distinct ns" and "i < length ns"
  shows "map_of (zip ns [n..<n + length ns]) (ns ! i) = Some (n + i)"
  using map_of_zip_nth[of ns "[n..<n + length ns]" i] assms by simp

lemma sim_add_hit:
  assumes d: "distinct ns" and s: "sim h0 ns h u" and i: "i < length ns"
    and l: "u (ns ! i) = Some l"
  shows "sim h0 ns (h[length h0 + i := Lines (l @ [t])]) (u(ns ! i \<mapsto> l @ [t]))"
  unfolding sim_def
proof (intro conjI allI impI)
  let ?h = "h[length h0 + i := Lines (l @ [t])]" and ?u = "u(ns ! i \<mapsto> l @ [t])"
  from s show "length ?h = length h0 + length ns + 1" by (simp add: sim_def)
  from s show "take (length h0) ?h = h0" by (simp add: sim_def)
  from s i show "?h ! (length h0 + length ns) = Dict (zip ns [length h0..<length h0 + length ns])"
    by (simp add: sim_def)
  show "?h ! (length h0 + j) = Lines (case ?u (ns ! j) of Some l \<Rightarrow> l | None \<Rightarrow> [])"
    if j: "j < length ns" for j
  proof (cases "j = i")
    case True
    with s i show ?thesis by (simp add: sim_def)
  next
    case False
    with d i j have "ns ! j \<noteq> ns ! i" by (simp add: nth_eq_iff_index_eq)
    with False s j show ?thesis by (simp add: sim_def)
  qed
  show "(x \<in> set ns) = (?u x \<noteq> None)" for x
    using s i by (auto simp: sim_def)
qed

lemma add_sim:
  assumes d: "distinct ns" and s: "sim h0 ns h u"
  shows "rel_sum (same_error h0) (sim h0 ns) (add_store (length h0 + length ns) h v t) (add u v t)"
proof (cases v)
  case (JStr x)
  show ?thesis
  proof (cases "x \<in> set ns")
    case False
    with s have "u x = None" by (simp add: sim_def)
    with False JStr s show ?thesis
      by (simp add: add_store_def add_def sim_dict[OF s] zip_lookup_None)
  next
    case True
    then obtain i where i: "i < length ns" and x: "ns ! i = x"
      by (auto simp: in_set_conv_nth)
    from s True obtain l where l: "u x = Some l" by (auto simp: sim_def)
    from sim_lines[OF s i] x l have c: "cell_at h (length h0 + i) = Some (Lines l)" by simp
    from zip_lookup_Some[OF d i, of "length h0"] x
    have m: "map_of (zip ns [length h0..<length h0 + length ns]) x = Some (length h0 + i)"
      by simp
    from sim_add_hit[OF d s i, of l t] x l
    have "sim h0 ns (h[length h0 + i := Lines (l @ [t])]) (u(x \<mapsto> l @ [t]))" by simp
    with JStr l c m show ?thesis
      by (simp add: add_store_def add_def sim_dict[OF s])
  qed
qed (use s in \<open>simp_all add: add_store_def add_def same_error_def sim_frame\<close>)

lemma add_if_known_sim:
  assumes n: "names_at h0 pa = Inr ns" and s: "sim h0 ns h u"
  shows "rel_sum (same_error h0) (sim h0 ns)
           (add_if_known_store pa (length h0 + length ns) v text h)
           (add_if_known (set ns) v text u)"
proof (cases "truthy v")
  case False
  with s show ?thesis by (simp add: add_if_known_store_def add_if_known_def)
next
  case True
  note f = sim_frame[OF s]
  have "rel_sum (same_error h0) (sim h0 ns)
          (bindE (at_store h (py_in v (set ns))) (\<lambda>known.
             if known then bindE (at_store h text) (\<lambda>t. add_store (length h0 + length ns) h v t)
             else Inr h))
          (bindE (py_in v (set ns)) (\<lambda>known.
             if known then bindE text (\<lambda>t. add u v t) else Inr u))"
    by (intro rel_at_store[OF f])
      (simp add: s rel_at_store[OF f] add_sim[OF names_at_distinct[OF n] s])
  with True sim_names[OF s n] show ?thesis
    by (simp add: add_if_known_store_def add_if_known_def bindE_def)
qed

lemma forward_step_sim:
  assumes "names_at h0 pa = Inr ns" and "sim h0 ns h u"
  shows "rel_sum (same_error h0) (sim h0 ns)
           (forward_step_store pa (length h0 + length ns) item h forward)
           (forward_step (set ns) item u forward)"
  unfolding forward_step_store_def forward_step_def
  by (intro rel_at_store sim_frame[OF assms(2)] add_if_known_sim assms)

lemma receptionist_step_sim:
  assumes n: "names_at h0 pa = Inr ns" and s: "sim h0 ns h u"
  shows "rel_sum (same_error h0) (sim h0 ns)
           (receptionist_step_store pa (length h0 + length ns) h item)
           (receptionist_step (set ns) u item)"
  unfolding receptionist_step_store_def receptionist_step_def
proof (intro rel_at_store[OF sim_frame[OF s]], rule rel_bindE[where R = "sim h0 ns"])
  fix filename
  show "rel_sum (same_error h0) (sim h0 ns)
          (add_if_known_store pa (length h0 + length ns) filename (describe ''Receptionist: '' item) h)
          (add_if_known (set ns) filename (describe ''Receptionist: '' item) u)"
    by (rule add_if_known_sim[OF n s])
next
  fix filename h1 u1
  assume s1: "sim h0 ns h1 u1"
  show "rel_sum (same_error h0) (sim h0 ns)
          (bindE (at_store h1 (dict_get item ''Forwards'' (JArr []))) (\<lambda>fw.
           bindE (at_store h1 (py_iter fw)) (\<lambda>forwards.
             foldE (forward_step_store pa (length h0 + length ns) item) h1 forwards)))
          (bindE (dict_get item ''Forwards'' (JArr [])) (\<lambda>fw.
           bindE (py_iter fw) (\<lambda>forwards.
             foldE (forward_step (set ns) item) u1 forwards)))"
    by (intro rel_at_store[OF sim_frame[OF s1]] rel_foldE[where R = "sim h0 ns"]
          forward_step_sim[OF n] s1)
qed

lemma file_key_step_sim:
  assumes "names_at h0 pa = Inr ns" and "sim h0 ns h u"
  shows "rel_sum (same_error h0) (sim h0 ns)
           (file_key_step_store pa (length h0 + length ns) item h key)
           (file_key_step (set ns) item u key)"
  unfolding file_key_step_store_def file_key_step_def
  by (intro rel_at_store sim_frame[OF assms(2)] add_if_known_sim assms)

lemma route_step_sim:
  assumes "names_at h0 pa = Inr ns" and "sim h0 ns h u"
  shows "rel_sum (same_error h0) (sim h0 ns)
           (route_step_store kind pa (length h0 + length ns) item h rkey)
           (route_step kind (set ns) item u rkey)"
  unfolding route_step_store_def route_step_def
  by (intro rel_at_store sim_frame[OF assms(2)] add_if_known_sim assms)

lemma queue_step_sim:
  assumes n: "names_at h0 pa = Inr ns" and s: "sim h0 ns h u"
  shows "rel_sum (same_error h0) (sim h0 ns)
           (queue_step_store pa (length h0 + length ns) h item)
           (queue_step (set ns) u item)"
  unfolding queue_step_store_def queue_step_def
proof (rule rel_bindE[where R = "sim h0 ns"])
  show "rel_sum (same_error h0) (sim h0 ns)
          (foldE (file_key_step_store pa (length h0 + length ns) item) h queue_file_keys)
          (foldE (file_key_step (set ns) item) u queue_file_keys)"
    by (intro rel_foldE[where R = "sim h0 ns"] file_key_step_sim[OF n] s)
next
  fix h1 u1
  assume "sim h0 ns h1 u1"
  then show "rel_sum (same_error h0) (sim h0 ns)
          (foldE (route_step_store ''Queue'' pa (length h0 + length ns) item) h1 route_keys)
          (foldE (route_step ''Queue'' (set ns) item) u1 route_keys)"
    by (intro rel_foldE[where R = "sim h0 ns"] route_step_sim[OF n])
qed

lemma group_step_sim:
  assumes n: "names_at h0 pa = Inr ns" and s: "sim h0 ns h u"
  shows "rel_sum (same_error h0) (sim h0 ns)
           (group_step_store pa (length h0 + length ns) h item)
           (group_step (set ns) u item)"
  unfolding group_step_store_def group_step_def
  by (intro rel_foldE[where R = "sim h0 ns"] route_step_sim[OF n] s)

lemma moh_step_sim:
  assumes "names_at h0 pa = Inr ns" and "sim h0 ns h u"
  shows "rel_sum (same_error h0) (sim h0 ns)
           (moh_step_store pa (length h0 + length ns) h kv)
           (moh_step (set ns) u kv)"
  unfolding moh_step_store_def moh_step_def
  by (intro add_if_known_sim assms)

lemma scan_collection_sim:
  assumes c: "coll_at h0 ca = Inr collection"
    and body: "\<And>h u x. sim h0 ns h u \<Longrightarrow> rel_sum (same_error h0) (sim h0 ns) (body_store h x) (body u x)"
    and s: "sim h0 ns h u"
  shows "rel_sum (same_error h0) (sim h0 ns)
           (scan_collection_store body_store ca h) (scan_collection body collection u)"
proof -
  have "scan_collection_store body_store ca h =
      bindE (at_store h (dict_get (py_or collection (JObj [])) ''value'' (JArr []))) (\<lambda>v.
      bindE (at_store h (py_iter v)) (\<lambda>items. foldE body_store h items))"
    by (simp add: scan_collection_store_def sim_coll[OF s c] bindE_def)
  then show ?thesis
    unfolding scan_collection_def
    by (simp only:)
      (intro rel_at_store[OF sim_frame[OF s]] rel_foldE[where R = "sim h0 ns"] body s)
qed

lemma scan_moh_sim:
  assumes n: "names_at h0 pa = Inr ns" and c: "coll_at h0 ma = Inr m" and s: "sim h0 ns h u"
  shows "rel_sum (same_error h0) (sim h0 ns)
           (scan_moh_store pa (length h0 + length ns) ma h)
           (bindE (dict_items (py_or m (JObj []))) (\<lambda>items. foldE (moh_step (set ns)) u items))"
proof -
  have "scan_moh_store pa (length h0 + length ns) ma h =
      bindE (at_store h (dict_items (py_or m (JObj [])))) (\<lambda>items.
        foldE (moh_step_store pa (length h0 + length ns)) h items)"
    by (simp add: scan_moh_store_def sim_coll[OF s c] bindE_def)
  then show ?thesis
    by (simp only:)
      (intro rel_at_store[OF sim_frame[OF s]] rel_foldE[where R = "sim h0 ns"]
         moh_step_sim[OF n] s)
qed

lemma scan_setting_sim:
  assumes n: "names_at h0 pa = Inr ns" and c: "coll_at h0 sa = Inr settings"
    and s: "sim h0 ns h u"
  shows "rel_sum (same_error h0) (sim h0 ns)
           (scan_setting_store pa (length h0 + length ns) text sa h)
           (scan_setting (set ns) text settings u)"
proof -
  have "scan_setting_store pa (length h0 + length ns) text sa h =
      bindE (at_store h (dict_get (py_or settings (JObj [])) ''MusicOnHold'' JNull)) (\<lambda>moh.
        add_if_known_store pa (length h0 + length ns) moh (Inr text) h)"
    by (simp add: scan_setting_store_def sim_coll[OF s c] bindE_def)
  then show ?thesis
    unfolding scan_setting_def
    by (simp only:) (intro rel_at_store[OF sim_frame[OF s]] add_if_known_sim[OF n] s)
qed


lemma sim_init:
  "sim h0 ns (fst (new_usages ns h0)) (\<lambda>fn. if fn \<in> set ns then Some [] else None)"
  by (simp add: sim_def new_usages_def nth_append)

lemma new_usages_address: "snd (new_usages ns h0) = length h0 + length ns"
  by (simp add: new_usages_def)

lemma cell_at_extension:
  assumes "take (length h) h' = h" and "a < length h"
  shows "cell_at h' a = cell_at h a"
proof -
  from assms(1) have "length h \<le> length h'"
    by (metis length_take min.cobounded1)
  moreover from assms have "h' ! a = h ! a"
    by (metis nth_take)
  ultimately show ?thesis using assms(2) by (simp add: cell_at_def)
qed

lemma map_of_filter_distinct:
  assumes "distinct (map fst xs)"
  shows "map_of (filter P xs) k
           = (case map_of xs k of Some v \<Rightarrow> (if P (k, v) then Some v else None) | None \<Rightarrow> None)"
  using assms
proof (induction xs)
  case Nil
  then show ?case by simp
next
  case (Cons x xs)
  obtain k' v' where x: "x = (k', v')" by (cases x)
  from Cons.prems x have fresh: "map_of xs k' = None"
    by (simp add: map_of_eq_None_iff)
  from Cons.prems have IH: "map_of (filter P xs) k
      = (case map_of xs k of Some v \<Rightarrow> (if P (k, v) then Some v else None) | None \<Rightarrow> None)"
    by (intro Cons.IH) simp
  show ?case
  proof (cases "k = k'")
    case True
    with x IH fresh show ?thesis by simp
  next
    case False
    with x IH show ?thesis by simp
  qed
qed

lemma filter_usages_sim:
  assumes d: "distinct ns" and s: "sim h0 ns h u"
  shows "\<exists>h'. filter_usages (length h0 + length ns) h = Inr (h', length h)
          \<and> take (length h0) h' = h0
          \<and> length h' = length h + 1
          \<and> (\<forall>h''. take (length h') h'' = h' \<longrightarrow>
                usage_map_at h'' (length h)
                  = (\<lambda>k. case u k of Some v \<Rightarrow> (if v \<noteq> [] then Some v else None) | None \<Rightarrow> None))"
proof -
  let ?d = "zip ns [length h0..<length h0 + length ns]"
  let ?h' = "h @ [Dict (filter (nonempty_at h) ?d)]"
  have run: "filter_usages (length h0 + length ns) h = Inr (?h', length h)"
    by (simp add: filter_usages_def sim_dict[OF s])
  from s have old: "take (length h0) ?h' = h0" by (simp add: sim_def)
  have keys: "distinct (map fst ?d)" using d by simp
  have same: "usage_map_at h'' (length h) k
      = (case u k of Some v \<Rightarrow> (if v \<noteq> [] then Some v else None) | None \<Rightarrow> None)"
    if ext: "take (length ?h') h'' = ?h'" for h'' k
  proof -
    have res: "cell_at h'' (length h) = Some (Dict (filter (nonempty_at h) ?d))"
      using cell_at_extension[OF ext, of "length h"] by (simp add: cell_at_def)
    have look: "map_of (filter (nonempty_at h) ?d) k
        = (case map_of ?d k of Some a \<Rightarrow> (if nonempty_at h (k, a) then Some a else None)
           | None \<Rightarrow> None)"
      by (rule map_of_filter_distinct[OF keys])
    show ?thesis
    proof (cases "k \<in> set ns")
      case False
      with s have "u k = None" by (simp add: sim_def)
      with False res look show ?thesis
        by (simp add: usage_map_at_def zip_lookup_None)
    next
      case True
      then obtain i where i: "i < length ns" and k: "ns ! i = k"
        by (auto simp: in_set_conv_nth)
      from s True obtain l where l: "u k = Some l" by (auto simp: sim_def)
      from sim_lines[OF s i] k l have c: "cell_at h (length h0 + i) = Some (Lines l)" by simp
      from s i have less: "length h0 + i < length ?h'" by (simp add: sim_def)
      from c have "cell_at ?h' (length h0 + i) = Some (Lines l)"
        by (simp add: cell_at_def nth_append split: if_splits)
      with cell_at_extension[OF ext less]
      have c'': "cell_at h'' (length h0 + i) = Some (Lines l)" by simp
      from zip_lookup_Some[OF d i, of "length h0"] k
      have m: "map_of ?d k = Some (length h0 + i)" by simp
      from res look m c c'' l show ?thesis
        by (simp add: usage_map_at_def nonempty_at_def)
    qed
  qed
  from run old same show ?thesis by (intro exI[of _ ?h']) auto
qed

lemma gather_prompt_usages_grouped:
  "gather_prompt_usages P r q g m c cp =
     bindE (scan_collection (receptionist_step P) r (\<lambda>fn. if fn \<in> P then Some [] else None)) (\<lambda>u1.
     bindE (scan_collection (queue_step P) q u1) (\<lambda>u2.
     bindE (scan_collection (group_step P) g u2) (\<lambda>u3.
     bindE (bindE (dict_items (py_or m (JObj []))) (\<lambda>items. foldE (moh_step P) u3 items)) (\<lambda>u4.
     bindE (scan_setting P ''Conference: MusicOnHold'' c u4) (\<lambda>u5.
     bindE (scan_setting P ''CallParking: MusicOnHold'' cp u5) (\<lambda>u6.
       Inr (\<lambda>k. case u6 k of Some v \<Rightarrow> (if v \<noteq> [] then Some v else None) | None \<Rightarrow> None)))))))"
  by (simp add: gather_prompt_usages_def bindE_assoc)

lemma gather_store_sim:
  assumes n: "names_at h0 pa = Inr ns"
    and r: "coll_at h0 ra = Inr r" and q: "coll_at h0 qa = Inr q" and g: "coll_at h0 ga = Inr g"
    and m: "coll_at h0 ma = Inr m" and c: "coll_at h0 ca = Inr c" and cp: "coll_at h0 cpa = Inr cp"
  shows "rel_sum (same_error h0) (agrees h0)
           (gather_store h0 pa ra qa ga ma ca cpa)
           (gather_prompt_usages (set ns) r q g m c cp)"
proof -
  let ?ua = "length h0 + length ns"
  have final: "rel_sum (same_error h0) (agrees h0) (filter_usages ?ua h6)
      (Inr (\<lambda>k. case u6 k of Some v \<Rightarrow> (if v \<noteq> [] then Some v else None) | None \<Rightarrow> None))"
    if "sim h0 ns h6 u6" for h6 u6
    using filter_usages_sim[OF names_at_distinct[OF n] that]
    by (auto simp: agrees_def)
  have "rel_sum (same_error h0) (agrees h0)
     (bindE (scan_collection_store (receptionist_step_store pa ?ua) ra (fst (new_usages ns h0))) (\<lambda>h1.
      bindE (scan_collection_store (queue_step_store pa ?ua) qa h1) (\<lambda>h2.
      bindE (scan_collection_store (group_step_store pa ?ua) ga h2) (\<lambda>h3.
      bindE (scan_moh_store pa ?ua ma h3) (\<lambda>h4.
      bindE (scan_setting_store pa ?ua ''Conference: MusicOnHold'' ca h4) (\<lambda>h5.
      bindE (scan_setting_store pa ?ua ''CallParking: MusicOnHold'' cpa h5) (\<lambda>h6.
        filter_usages ?ua h6)))))))
     (gather_prompt_usages (set ns) r q g m c cp)"
    unfolding gather_prompt_usages_grouped
    apply (rule rel_bindE[where R = "sim h0 ns"])
     apply (rule scan_collection_sim[OF r receptionist_step_sim[OF n] sim_init], assumption)
    apply (rule rel_bindE[where R = "sim h0 ns"])
     apply (rule scan_collection_sim[OF q queue_step_sim[OF n]], assumption, assumption)
    apply (rule rel_bindE[where R = "sim h0 ns"])
     apply (rule scan_collection_sim[OF g group_step_sim[OF n]], assumption, assumption)
    apply (rule rel_bindE[where R = "sim h0 ns"])
     apply (rule scan_moh_sim[OF n m], assumption)
    apply (rule rel_bindE[where R = "sim h0 ns"])
     apply (rule scan_setting_sim[OF n c], assumption)
    apply (rule rel_bindE[where R = "sim h0 ns"])
     apply (rule scan_setting_sim[OF n cp], assumption)
    apply (rule final, assumption)
    done
  then show ?thesis
    by (simp add: gather_store_def n new_usages_address bindE_def)
qed

subsection \<open>On known names that are strings the two resolvers agree\<close>

lemma py_eq_JStr [simp]: "py_eq (JStr s) k = (k = JStr s)" "py_eq k (JStr s) = (k = JStr s)"
  by (cases k; auto simp: py_eq_def num_val_def)+

lemma py_in_keys_strings:
  "py_in_keys v (map JStr ns) = py_in v (set ns)"
  by (cases v) (auto simp: py_in_keys_def list_ex_iff py_eq_def num_val_def)

lemma same_usages_keys: "same_usages ns ua u \<Longrightarrow> map fst ua = map JStr ns"
  by (simp add: same_usages_def)

lemma same_usages_length: "same_usages ns ua u \<Longrightarrow> length ua = length ns"
  by (metis length_map same_usages_keys)

lemma same_usages_hit:
  assumes d: "distinct ns" and s: "same_usages ns ua u" and i: "i < length ns"
  shows "same_usages ns
           (map (\<lambda>kv. if fst kv = JStr (ns ! i) then (fst kv, snd kv @ [t]) else kv) ua)
           (u(ns ! i \<mapsto> snd (ua ! i) @ [t]))"
proof -
  let ?f = "\<lambda>kv. if fst kv = JStr (ns ! i) then (fst kv, snd kv @ [t]) else kv"
  have len: "length ua = length ns" by (rule same_usages_length[OF s])
  have key: "fst (ua ! j) = JStr (ns ! j)" if "j < length ns" for j
    using same_usages_keys[OF s] that len by (metis nth_map)
  have keys: "map fst (map ?f ua) = map JStr ns"
    using same_usages_keys[OF s] by (simp add: comp_def if_distrib cong: if_cong)
  have at: "(u(ns ! i \<mapsto> snd (ua ! i) @ [t])) (ns ! j) = Some (snd (map ?f ua ! j))"
    if j: "j < length ns" for j
  proof (cases "j = i")
    case True
    with j len key[OF j] show ?thesis by simp
  next
    case False
    with d i j have ne: "ns ! j \<noteq> ns ! i" by (simp add: nth_eq_iff_index_eq)
    with s j len key[OF j] show ?thesis by (simp add: same_usages_def)
  qed
  have out: "(u(ns ! i \<mapsto> snd (ua ! i) @ [t])) x = None" if "x \<notin> set ns" for x
    using that s i by (auto simp: same_usages_def)
  from keys at out show ?thesis by (simp add: same_usages_def)
qed

lemma add_same:
  assumes d: "distinct ns" and s: "same_usages ns ua u"
  shows "rel_sum (=) (same_usages ns) (add_any ua v t) (add u v t)"
proof (cases v)
  case (JStr x)
  show ?thesis
  proof (cases "x \<in> set ns")
    case False
    with s have "u x = None" by (simp add: same_usages_def)
    with False JStr s show ?thesis
      by (simp add: add_any_def add_def same_usages_keys[OF s] py_in_keys_strings bindE_def)
  next
    case True
    then obtain i where i: "i < length ns" and x: "ns ! i = x"
      by (auto simp: in_set_conv_nth)
    from s i x have l: "u x = Some (snd (ua ! i))" by (auto simp: same_usages_def)
    from same_usages_hit[OF d s i, of t] x
    have "same_usages ns
           (map (\<lambda>kv. if fst kv = JStr x then (fst kv, snd kv @ [t]) else kv) ua)
           (u(x \<mapsto> snd (ua ! i) @ [t]))" by simp
    with True JStr l show ?thesis
      by (simp add: add_any_def add_def same_usages_keys[OF s] py_in_keys_strings bindE_def)
  qed
qed (use s in \<open>simp_all add: add_any_def add_def py_in_keys_def bindE_def list_ex_iff
       same_usages_keys[OF s]\<close>)


lemma rel_bindE_same:
  assumes "\<And>x. rel_sum (=) R (f x) (g x)"
  shows "rel_sum (=) R (bindE m f) (bindE m g)"
  using assms by (cases m) (simp_all add: bindE_def)

lemma add_if_known_same:
  assumes d: "distinct ns" and s: "same_usages ns ua u"
  shows "rel_sum (=) (same_usages ns)
           (add_if_known_any (map JStr ns) v text ua) (add_if_known (set ns) v text u)"
  unfolding add_if_known_any_def add_if_known_def py_in_keys_strings
  by (auto intro!: rel_bindE_same add_same[OF d s] simp: s)

lemma forward_step_same:
  assumes "distinct ns" and "same_usages ns ua u"
  shows "rel_sum (=) (same_usages ns)
           (forward_step_any (map JStr ns) item ua forward) (forward_step (set ns) item u forward)"
  unfolding forward_step_any_def forward_step_def
  by (intro rel_bindE_same add_if_known_same assms)

lemma receptionist_step_same:
  assumes d: "distinct ns" and s: "same_usages ns ua u"
  shows "rel_sum (=) (same_usages ns)
           (receptionist_step_any (map JStr ns) ua item) (receptionist_step (set ns) u item)"
  unfolding receptionist_step_any_def receptionist_step_def
proof (intro rel_bindE_same, rule rel_bindE[where R = "same_usages ns"])
  fix filename
  show "rel_sum (=) (same_usages ns)
          (add_if_known_any (map JStr ns) filename (describe ''Receptionist: '' item) ua)
          (add_if_known (set ns) filename (describe ''Receptionist: '' item) u)"
    by (rule add_if_known_same[OF d s])
next
  fix filename ua1 u1
  assume s1: "same_usages ns ua1 u1"
  show "rel_sum (=) (same_usages ns)
          (bindE (dict_get item ''Forwards'' (JArr [])) (\<lambda>fw.
           bindE (py_iter fw) (\<lambda>forwards.
             foldE (forward_step_any (map JStr ns) item) ua1 forwards)))
          (bindE (dict_get item ''Forwards'' (JArr [])) (\<lambda>fw.
           bindE (py_iter fw) (\<lambda>forwards.
             foldE (forward_step (set ns) item) u1 forwards)))"
    by (intro rel_bindE_same rel_foldE[where R = "same_usages ns"] forward_step_same[OF d] s1)
qed

lemma file_key_step_same:
  assumes "distinct ns" and "same_usages ns ua u"
  shows "rel_sum (=) (same_usages ns)
           (file_key_step_any (map JStr ns) item ua key) (file_key_step (set ns) item u key)"
  unfolding file_key_step_any_def file_key_step_def
  by (intro rel_bindE_same add_if_known_same assms)

lemma route_step_same:
  assumes "distinct ns" and "same_usages ns ua u"
  shows "rel_sum (=) (same_usages ns)
           (route_step_any kind (map JStr ns) item ua rkey) (route_step kind (set ns) item u rkey)"
  unfolding route_step_any_def route_step_def
  by (intro rel_bindE_same add_if_known_same assms)

lemma queue_step_same:
  assumes d: "distinct ns" and s: "same_usages ns ua u"
  shows "rel_sum (=) (same_usages ns)
           (queue_step_any (map JStr ns) ua item) (queue_step (set ns) u item)"
  unfolding queue_step_any_def queue_step_def
proof (rule rel_bindE[where R = "same_usages ns"])
  show "rel_sum (=) (same_usages ns)
          (foldE (file_key_step_any (map JStr ns) item) ua queue_file_keys)
          (foldE (file_key_step (set ns) item) u queue_file_keys)"
    by (intro rel_foldE[where R = "same_usages ns"] file_key_step_same[OF d] s)
next
  fix ua1 u1
  assume "same_usages ns ua1 u1"
  then show "rel_sum (=) (same_usages ns)
          (foldE (route_step_any ''Queue'' (map JStr ns) item) ua1 route_keys)
          (foldE (route_step ''Queue'' (set ns) item) u1 route_keys)"
    by (intro rel_foldE[where R = "same_usages ns"] route_step_same[OF d])
qed

lemma group_step_same:
  assumes d: "distinct ns" and s: "same_usages ns ua u"
  shows "rel_sum (=) (same_usages ns)
           (group_step_any (map JStr ns) ua item) (group_step (set ns) u item)"
  unfolding group_step_any_def group_step_def
  by (intro rel_foldE[where R = "same_usages ns"] route_step_same[OF d] s)

lemma moh_step_same:
  assumes "distinct ns" and "same_usages ns ua u"
  shows "rel_sum (=) (same_usages ns)
           (moh_step_any (map JStr ns) ua kv) (moh_step (set ns) u kv)"
  unfolding moh_step_any_def moh_step_def
  by (intro add_if_known_same assms)

lemma scan_collection_same:
  assumes body: "\<And>ua u x. same_usages ns ua u \<Longrightarrow> rel_sum (=) (same_usages ns) (body_any ua x) (body u x)"
    and s: "same_usages ns ua u"
  shows "rel_sum (=) (same_usages ns)
           (scan_collection body_any collection ua) (scan_collection body collection u)"
  unfolding scan_collection_def
  by (intro rel_bindE_same rel_foldE[where R = "same_usages ns"] body s)

lemma scan_moh_same:
  assumes d: "distinct ns" and s: "same_usages ns ua u"
  shows "rel_sum (=) (same_usages ns)
           (bindE (dict_items (py_or m (JObj []))) (\<lambda>items. foldE (moh_step_any (map JStr ns)) ua items))
           (bindE (dict_items (py_or m (JObj []))) (\<lambda>items. foldE (moh_step (set ns)) u items))"
  by (intro rel_bindE_same rel_foldE[where R = "same_usages ns"] moh_step_same[OF d] s)

lemma scan_setting_same:
  assumes d: "distinct ns" and s: "same_usages ns ua u"
  shows "rel_sum (=) (same_usages ns)
           (scan_setting_any (map JStr ns) text settings ua) (scan_setting (set ns) text settings u)"
  unfolding scan_setting_any_def scan_setting_def
  by (intro rel_bindE_same add_if_known_same[OF d] s)

lemma same_usages_init:
  "distinct ns \<Longrightarrow>
     same_usages ns (map (\<lambda>fn. (fn, [])) (map JStr ns)) (\<lambda>fn. if fn \<in> set ns then Some [] else None)"
  by (simp add: same_usages_def comp_def)

lemma usages_of_filter:
  assumes d: "distinct ns" and s: "same_usages ns ua u"
  shows "usages_of (filter (\<lambda>kv. snd kv \<noteq> []) ua)
           = (\<lambda>k. case u k of Some v \<Rightarrow> (if v \<noteq> [] then Some v else None) | None \<Rightarrow> None)"
proof (rule ext)
  fix k
  let ?Q = "\<lambda>kv. fst kv = JStr k \<and> snd kv \<noteq> []"
  have len: "length ua = length ns" by (rule same_usages_length[OF s])
  have key: "fst (ua ! j) = JStr (ns ! j)" if "j < length ns" for j
    using same_usages_keys[OF s] that len by (metis nth_map)
  have find: "find (\<lambda>kv. fst kv = JStr k) (filter (\<lambda>kv. snd kv \<noteq> []) ua) = find ?Q ua"
    by (induction ua) auto
  show "usages_of (filter (\<lambda>kv. snd kv \<noteq> []) ua) k
      = (case u k of Some v \<Rightarrow> (if v \<noteq> [] then Some v else None) | None \<Rightarrow> None)"
  proof (cases "k \<in> set ns")
    case False
    have "find ?Q ua = None"
    proof (rule ccontr)
      assume "find ?Q ua \<noteq> None"
      then obtain kv where "kv \<in> set ua" and "fst kv = JStr k"
        by (auto simp: find_None_iff)
      then have "JStr k \<in> set (map fst ua)" by force
      with same_usages_keys[OF s] False show False by auto
    qed
    moreover from s False have "u k = None" by (simp add: same_usages_def)
    ultimately show ?thesis by (simp add: usages_of_def find)
  next
    case True
    then obtain i where i: "i < length ns" and k: "ns ! i = k"
      by (auto simp: in_set_conv_nth)
    from s i k have uk: "u k = Some (snd (ua ! i))" by (auto simp: same_usages_def)
    have only: "j = i" if "j < length ua" and "fst (ua ! j) = JStr k" for j
    proof -
      from that len key[of j] have "ns ! j = k" by simp
      with d i k that(1) len show ?thesis
        using nth_eq_iff_index_eq[of ns j i] by simp
    qed
    show ?thesis
    proof (cases "snd (ua ! i) = []")
      case True
      have "find ?Q ua = None"
        unfolding find_None_iff
      proof (intro notI, elim exE conjE)
        fix kv assume "kv \<in> set ua" and f: "fst kv = JStr k" and n: "snd kv \<noteq> []"
        then obtain j where j: "j < length ua" and kv: "ua ! j = kv"
          by (auto simp: in_set_conv_nth)
        from only[OF j] kv f have "j = i" by simp
        with kv n True show False by simp
      qed
      with uk True show ?thesis by (simp add: usages_of_def find)
    next
      case False
      have "find ?Q ua = Some (ua ! i)"
        unfolding find_Some_iff
      proof (intro exI[of _ i] conjI allI impI)
        from i len show "i < length ua" by simp
        from key[OF i] k show "fst (ua ! i) = JStr k" by simp
        from False show "snd (ua ! i) \<noteq> []" .
        show "ua ! i = ua ! i" ..
        fix j assume "j < i"
        with only[of j] i len show "\<not> (fst (ua ! j) = JStr k \<and> snd (ua ! j) \<noteq> [])" by auto
      qed
      with uk False show ?thesis by (simp add: usages_of_def find)
    qed
  qed
qed

text \<open>
  On known names that are strings, the resolver that \<open>main\<close> calls raises what
  \<open>gather_prompt_usages\<close> raises and returns a dict that stands for the map it returns.
\<close>

lemma gather_any_strings:
  assumes d: "distinct ns"
  shows "map_sum id usages_of (gather_prompt_usages_any (map JStr ns) r q g m c cp)
           = gather_prompt_usages (set ns) r q g m c cp"
proof -
  let ?R = "\<lambda>ua u. usages_of ua = u"
  have final: "rel_sum (=) ?R (Inr (filter (\<lambda>kv. snd kv \<noteq> []) ua6))
      (Inr (\<lambda>k. case u6 k of Some v \<Rightarrow> (if v \<noteq> [] then Some v else None) | None \<Rightarrow> None))"
    if "same_usages ns ua6 u6" for ua6 u6
    using usages_of_filter[OF d that] by simp
  have grouped: "gather_prompt_usages_any P r q g m c cp =
     bindE (scan_collection (receptionist_step_any P) r (map (\<lambda>fn. (fn, [])) P)) (\<lambda>u1.
     bindE (scan_collection (queue_step_any P) q u1) (\<lambda>u2.
     bindE (scan_collection (group_step_any P) g u2) (\<lambda>u3.
     bindE (bindE (dict_items (py_or m (JObj []))) (\<lambda>items. foldE (moh_step_any P) u3 items)) (\<lambda>u4.
     bindE (scan_setting_any P ''Conference: MusicOnHold'' c u4) (\<lambda>u5.
     bindE (scan_setting_any P ''CallParking: MusicOnHold'' cp u5) (\<lambda>u6.
       Inr (filter (\<lambda>kv. snd kv \<noteq> []) u6)))))))" for P
    by (simp add: gather_prompt_usages_any_def bindE_assoc)
  have "rel_sum (=) ?R (gather_prompt_usages_any (map JStr ns) r q g m c cp)
          (gather_prompt_usages (set ns) r q g m c cp)"
    unfolding gather_prompt_usages_grouped grouped
    apply (rule rel_bindE[where R = "same_usages ns"])
     apply (rule scan_collection_same[OF receptionist_step_same[OF d] same_usages_init[OF d]],
        assumption)
    apply (rule rel_bindE[where R = "same_usages ns"])
     apply (rule scan_collection_same[OF queue_step_same[OF d]], assumption, assumption)
    apply (rule rel_bindE[where R = "same_usages ns"])
     apply (rule scan_collection_same[OF group_step_same[OF d]], assumption, assumption)
    apply (rule rel_bindE[where R = "same_usages ns"])
     apply (rule scan_moh_same[OF d], assumption)
    apply (rule rel_bindE[where R = "same_usages ns"])
     apply (rule scan_setting_same[OF d], assumption)
    apply (rule rel_bindE[where R = "same_usages ns"])
     apply (rule scan_setting_same[OF d], assumption)
    apply (rule final, assumption)
    done
  then show ?thesis
    by (cases "gather_prompt_usages_any (map JStr ns) r q g m c cp";
        cases "gather_prompt_usages (set ns) r q g m c cp") simp_all
qed

text \<open>
  The names \<open>main\<close> hands to the resolver are pairwise different, so where all of them are
  strings they are the set of strings that \<open>gather_prompt_usages\<close> is stated for.
\<close>

lemma py_eq_refl: "py_eq k k"
  by (cases k) (simp_all add: py_eq_def num_val_def)

lemma prompt_name_step_distinct:
  assumes "prompt_name_step S p = Inr S'" and "distinct S"
  shows "distinct S'"
proof -
  from assms(1) obtain name where step:
    "(if truthy name
      then bindE (py_in_keys name S) (\<lambda>present. Inr (if present then S else S @ [name]))
      else Inr S) = Inr S'"
    unfolding prompt_name_step_def bindE_Inr_iff by blast
  show ?thesis
  proof (cases "truthy name")
    case False
    with step assms(2) show ?thesis by simp
  next
    case True
    with step have "bindE (py_in_keys name S) (\<lambda>present. Inr (if present then S else S @ [name]))
        = Inr S'"
      by simp
    then obtain present where p: "py_in_keys name S = Inr present"
      and S': "S' = (if present then S else S @ [name])"
      by (auto simp: bindE_Inr_iff)
    show ?thesis
    proof (cases present)
      case True
      with S' assms(2) show ?thesis by simp
    next
      case False
      with p have "\<not> list_ex (py_eq name) S"
        by (cases name) (simp_all add: py_in_keys_def)
      then have "name \<notin> set S"
        using py_eq_refl by (auto simp: list_ex_iff)
      with S' False assms(2) show ?thesis by simp
    qed
  qed
qed

lemma foldE_prompt_names_distinct:
  "foldE prompt_name_step S ps = Inr S' \<Longrightarrow> distinct S \<Longrightarrow> distinct S'"
proof (induction ps arbitrary: S)
  case Nil
  then show ?case by simp
next
  case (Cons p ps)
  then show ?case
    by (cases "prompt_name_step S p") (auto dest: prompt_name_step_distinct)
qed

lemma prompt_filenames_distinct:
  assumes "prompt_filenames_of prompts = Inr ks"
  shows "distinct ks"
proof -
  from assms obtain ps where "foldE prompt_name_step [] ps = Inr ks"
    unfolding prompt_filenames_of_def bindE_Inr_iff by blast
  then show ?thesis by (rule foldE_prompt_names_distinct) simp
qed

lemma string_names:
  assumes "list_all is_str ks"
  shows "ks = map JStr (map str_of ks)"
  using assms by (induction ks) (auto simp: is_str_def str_of_def split: json.splits)

lemma resolver_on_string_names:
  assumes names: "prompt_filenames_of prompts = Inr ks" and strs: "list_all is_str ks"
  shows "map_sum id usages_of (gather_prompt_usages_any ks r q g m c cp)
           = gather_prompt_usages (set (map str_of ks)) r q g m c cp"
proof -
  have ks: "ks = map JStr (map str_of ks)" by (rule string_names[OF strs])
  have "distinct (map JStr (map str_of ks))"
    using prompt_filenames_distinct[OF names] ks by simp
  then have "distinct (map str_of ks)"
    using distinct_map[of JStr "map str_of ks"] by blast
  from gather_any_strings[OF this, of r q g m c cp] ks show ?thesis by simp
qed

section \<open>The claims of the specification\<close>

subsection \<open>Keys, order and content of the returned map\<close>

lemmas gather_unfold = gather_prompt_usages_def scan_collection_def scan_setting_def receptionist_step_def
  forward_step_def queue_step_def file_key_step_def route_step_def group_step_def moh_step_def
  add_if_known_def add_def describe_def bindE_def py_or_def queue_file_keys_def route_keys_def
  group_route_keys_def

lemmas scenario_unfold = scenario_receptionists_def scenario_queues_def no_entities_def
  break_route_queues_def scenario_music_on_hold_def

lemma usage_list_not_known: "fn \<notin> P \<Longrightarrow> usage_list P refs fn = []"
  by (simp add: usage_list_def matches_def)

lemma usage_list_empty_name: "usage_list P refs [] = []"
  by (simp add: usage_list_def matches_def)

text \<open>
  Claim C1. Whenever \<open>gather_prompt_usages\<close> returns, the keys of the returned map are
  exactly the known filenames that have at least one matching reference: a known filename
  without a matching reference is absent, no key is bound to the empty list, and no key lies
  outside the known filenames.
\<close>

theorem usage_map_keys:
  assumes "gather_prompt_usages P r q g m c cp = Inr u"
  shows "dom u = {fn \<in> P. usage_list P (references r q g m c cp) fn \<noteq> []}
       \<and> (\<forall>fn \<in> P. usage_list P (references r q g m c cp) fn = [] \<longrightarrow> u fn = None)
       \<and> (\<forall>fn. u fn \<noteq> Some [])
       \<and> dom u \<subseteq> P"
proof -
  let ?refs = "references r q g m c cp"
  have u: "u = usage_map P ?refs" using assms by (rule gather_refines)
  have keys: "dom u = {fn \<in> P. usage_list P ?refs fn \<noteq> []}"
    unfolding u usage_map_def dom_def using usage_list_not_known[of _ P ?refs] by auto
  have absent: "\<forall>fn \<in> P. usage_list P ?refs fn = [] \<longrightarrow> u fn = None"
    unfolding u usage_map_def by simp
  have nonempty: "\<forall>fn. u fn \<noteq> Some []"
    unfolding u usage_map_def by simp
  from keys have "dom u \<subseteq> P" by blast
  with keys absent nonempty show ?thesis by blast
qed

text \<open>The run of the first scenario, with a third known filename that nothing references.\<close>

lemma scenario_run:
  "gather_prompt_usages {''welcome.wav'', ''hold.wav'', ''unused.wav''}
     scenario_receptionists scenario_queues no_entities JNull (JObj []) JNull
   = Inr [''welcome.wav'' \<mapsto> [''Receptionist: 100 Main''],
          ''hold.wav'' \<mapsto> [''Queue OnHoldFile: 800 Support'']]"
  unfolding scenario_unfold
  apply (simp add: gather_unfold)
  apply (rule ext)
  apply simp
  done

theorem usage_map_keys_witness:
  "gather_prompt_usages {''welcome.wav'', ''hold.wav'', ''unused.wav''}
     scenario_receptionists scenario_queues no_entities JNull (JObj []) JNull
   = Inr [''welcome.wav'' \<mapsto> [''Receptionist: 100 Main''],
          ''hold.wav'' \<mapsto> [''Queue OnHoldFile: 800 Support'']]
   \<and> dom [''welcome.wav'' \<mapsto> [''Receptionist: 100 Main''],
          ''hold.wav'' \<mapsto> [''Queue OnHoldFile: 800 Support'']]
     = {fn \<in> {''welcome.wav'', ''hold.wav'', ''unused.wav''}.
          usage_list {''welcome.wav'', ''hold.wav'', ''unused.wav''}
            (references scenario_receptionists scenario_queues no_entities JNull (JObj []) JNull) fn \<noteq> []}
   \<and> [''welcome.wav'' \<mapsto> [''Receptionist: 100 Main''],
          ''hold.wav'' \<mapsto> [''Queue OnHoldFile: 800 Support'']] ''unused.wav'' = None"
  using usage_map_keys[OF scenario_run] scenario_run by simp

lemmas refs_unfold = references_def entities_def elements_def field_def receptionist_refs_def
  queue_refs_def group_refs_def route_refs_def moh_refs_def conference_refs_def
  call_parking_refs_def label_def usage_list_def matches_def

lemmas ok_unfold = collection_ok_def receptionist_ok_def queue_ok_def group_ok_def moh_ok_def
  setting_ok_def forwards_ok_def forward_ok_def route_ok_def field_ok_def is_record_def field_def
  queue_file_keys_def route_keys_def group_route_keys_def

lemmas busy_unfold = busy_receptionists_def busy_queues_def busy_groups_def
  busy_music_on_hold_def welcome_conference_def welcome_call_parking_def

text \<open>
  Claim C2. For a known filename with at least one matching reference: on a snapshot of
  the accepted shape the resolver returns; and whenever it returns, the list it binds to
  the filename has one entry for each matching reference, in scan order: those of the
  receptionists (for each, the direct field before the forwards, as \<open>receptionist_refs\<close>
  lists them), of the queues (direct fields before routes, as \<open>queue_refs\<close> lists them), of
  the groups, of the music-on-hold settings, of the conference settings and of the
  call-parking settings.
\<close>

theorem usage_list_scan_order:
  assumes "fn \<in> P"
    and "filter (matches P fn) (references r q g m c cp) \<noteq> []"
  shows "(collection_ok receptionist_ok r \<and> collection_ok queue_ok q
          \<and> collection_ok group_ok g \<and> moh_ok m \<and> setting_ok c \<and> setting_ok cp
          \<longrightarrow> (\<exists>u. gather_prompt_usages P r q g m c cp = Inr u))
       \<and> (\<forall>u. gather_prompt_usages P r q g m c cp = Inr u \<longrightarrow>
            (\<exists>l. u fn = Some l
               \<and> length l = length (filter (matches P fn) (references r q g m c cp))
               \<and> l = usage_list P (concat (map receptionist_refs (entities r))) fn
                    @ usage_list P (concat (map queue_refs (entities q))) fn
                    @ usage_list P (concat (map group_refs (entities g))) fn
                    @ usage_list P (moh_refs m) fn
                    @ usage_list P (conference_refs c) fn
                    @ usage_list P (call_parking_refs cp) fn))"
proof (intro conjI impI allI)
  assume "collection_ok receptionist_ok r \<and> collection_ok queue_ok q
          \<and> collection_ok group_ok g \<and> moh_ok m \<and> setting_ok c \<and> setting_ok cp"
  then show "\<exists>u. gather_prompt_usages P r q g m c cp = Inr u"
    by (intro gather_total) simp_all
next
  fix u
  let ?refs = "references r q g m c cp"
  assume run: "gather_prompt_usages P r q g m c cp = Inr u"
  have u: "u = usage_map P ?refs" using run by (rule gather_refines)
  from assms(2) have ne: "usage_list P ?refs fn \<noteq> []" by (simp add: usage_list_def)
  then have bound: "u fn = Some (usage_list P ?refs fn)" by (simp add: u usage_map_def)
  have len: "length (usage_list P ?refs fn) = length (filter (matches P fn) ?refs)"
    by (simp add: usage_list_def)
  have split: "usage_list P ?refs fn
      = usage_list P (concat (map receptionist_refs (entities r))) fn
      @ usage_list P (concat (map queue_refs (entities q))) fn
      @ usage_list P (concat (map group_refs (entities g))) fn
      @ usage_list P (moh_refs m) fn
      @ usage_list P (conference_refs c) fn
      @ usage_list P (call_parking_refs cp) fn"
    by (simp add: references_def usage_list_append)
  from bound len split
  show "\<exists>l. u fn = Some l
       \<and> length l = length (filter (matches P fn) ?refs)
       \<and> l = usage_list P (concat (map receptionist_refs (entities r))) fn
            @ usage_list P (concat (map queue_refs (entities q))) fn
            @ usage_list P (concat (map group_refs (entities g))) fn
            @ usage_list P (moh_refs m) fn
            @ usage_list P (conference_refs c) fn
            @ usage_list P (call_parking_refs cp) fn"
    by simp
qed

text \<open>
  A run in which a forward, a queue file, a queue route, a group route and each of the
  three settings refer to \<open>welcome.wav\<close>.
\<close>

lemma busy_run:
  "gather_prompt_usages {''welcome.wav'', ''hold.wav''}
     busy_receptionists busy_queues busy_groups busy_music_on_hold welcome_conference
     welcome_call_parking
   = Inr [''welcome.wav'' \<mapsto>
            [''Receptionist: 100 Main'', ''Receptionist (forward key): 100 Main'',
             ''Queue IntroFile: 800 Support'', ''Queue route BreakRoute: 800 Support'',
             ''Group route OfficeRoute: 900 Sales'', ''MusicOnHold setting (MusicOnHold0)'',
             ''Conference: MusicOnHold'', ''CallParking: MusicOnHold''],
          ''hold.wav'' \<mapsto> [''Queue OnHoldFile: 800 Support'']]"
  unfolding busy_unfold
  apply (simp add: gather_unfold)
  apply (rule ext)
  apply simp
  done

lemma busy_shape:
  "collection_ok receptionist_ok busy_receptionists" "collection_ok queue_ok busy_queues"
  "collection_ok group_ok busy_groups" "moh_ok busy_music_on_hold"
  "setting_ok welcome_conference" "setting_ok welcome_call_parking"
  unfolding busy_unfold by (simp_all add: ok_unfold)

lemma busy_refs:
  "usage_list {''welcome.wav'', ''hold.wav''}
      (concat (map receptionist_refs (entities busy_receptionists))) ''welcome.wav''
    = [''Receptionist: 100 Main'', ''Receptionist (forward key): 100 Main'']"
  "usage_list {''welcome.wav'', ''hold.wav''}
      (concat (map queue_refs (entities busy_queues))) ''welcome.wav''
    = [''Queue IntroFile: 800 Support'', ''Queue route BreakRoute: 800 Support'']"
  "usage_list {''welcome.wav'', ''hold.wav''}
      (concat (map group_refs (entities busy_groups))) ''welcome.wav''
    = [''Group route OfficeRoute: 900 Sales'']"
  "usage_list {''welcome.wav'', ''hold.wav''} (moh_refs busy_music_on_hold) ''welcome.wav''
    = [''MusicOnHold setting (MusicOnHold0)'']"
  "usage_list {''welcome.wav'', ''hold.wav''} (conference_refs welcome_conference) ''welcome.wav''
    = [''Conference: MusicOnHold'']"
  "usage_list {''welcome.wav'', ''hold.wav''} (call_parking_refs welcome_call_parking) ''welcome.wav''
    = [''CallParking: MusicOnHold'']"
  unfolding busy_unfold by (simp_all add: refs_unfold)

theorem usage_list_scan_order_witness:
  "collection_ok receptionist_ok busy_receptionists \<and> collection_ok queue_ok busy_queues
   \<and> collection_ok group_ok busy_groups \<and> moh_ok busy_music_on_hold
   \<and> setting_ok welcome_conference \<and> setting_ok welcome_call_parking
   \<and> ''welcome.wav'' \<in> {''welcome.wav'', ''hold.wav''}
   \<and> length (filter (matches {''welcome.wav'', ''hold.wav''} ''welcome.wav'')
         (references busy_receptionists busy_queues busy_groups busy_music_on_hold
            welcome_conference welcome_call_parking)) = 8
   \<and> (\<exists>u. gather_prompt_usages {''welcome.wav'', ''hold.wav''}
              busy_receptionists busy_queues busy_groups busy_music_on_hold welcome_conference
              welcome_call_parking = Inr u
          \<and> u ''welcome.wav'' =
              Some ([''Receptionist: 100 Main'', ''Receptionist (forward key): 100 Main'']
                    @ [''Queue IntroFile: 800 Support'', ''Queue route BreakRoute: 800 Support'']
                    @ [''Group route OfficeRoute: 900 Sales'']
                    @ [''MusicOnHold setting (MusicOnHold0)'']
                    @ [''Conference: MusicOnHold'']
                    @ [''CallParking: MusicOnHold'']))"
proof -
  let ?P = "{''welcome.wav'', ''hold.wav''}"
  let ?refs = "references busy_receptionists busy_queues busy_groups busy_music_on_hold
            welcome_conference welcome_call_parking"
  have known: "''welcome.wav'' \<in> ?P" by simp
  have count: "length (filter (matches ?P ''welcome.wav'') ?refs) = 8"
    using busy_refs by (simp add: references_def usage_list_def flip: length_map[of snd])
  then have ne: "filter (matches ?P ''welcome.wav'') ?refs \<noteq> []" by auto
  note both = usage_list_scan_order[OF known ne]
  from both[THEN conjunct1] busy_shape obtain u where
    run: "gather_prompt_usages ?P busy_receptionists busy_queues busy_groups busy_music_on_hold
            welcome_conference welcome_call_parking = Inr u"
    by blast
  from both[THEN conjunct2, rule_format, OF run] obtain l where
    bound: "u ''welcome.wav'' = Some l"
    and order: "l = usage_list ?P (concat (map receptionist_refs (entities busy_receptionists))) ''welcome.wav''
            @ usage_list ?P (concat (map queue_refs (entities busy_queues))) ''welcome.wav''
            @ usage_list ?P (concat (map group_refs (entities busy_groups))) ''welcome.wav''
            @ usage_list ?P (moh_refs busy_music_on_hold) ''welcome.wav''
            @ usage_list ?P (conference_refs welcome_conference) ''welcome.wav''
            @ usage_list ?P (call_parking_refs welcome_call_parking) ''welcome.wav''"
    by blast
  from run bound order[unfolded busy_refs] have
    "\<exists>u. gather_prompt_usages ?P busy_receptionists busy_queues busy_groups busy_music_on_hold
            welcome_conference welcome_call_parking = Inr u
        \<and> u ''welcome.wav'' =
              Some ([''Receptionist: 100 Main'', ''Receptionist (forward key): 100 Main'']
                    @ [''Queue IntroFile: 800 Support'', ''Queue route BreakRoute: 800 Support'']
                    @ [''Group route OfficeRoute: 900 Sales'']
                    @ [''MusicOnHold setting (MusicOnHold0)'']
                    @ [''Conference: MusicOnHold'']
                    @ [''CallParking: MusicOnHold''])"
    by blast
  with busy_shape known count show ?thesis by blast
qed

text \<open>
  Claim C5. Whenever \<open>gather_prompt_usages\<close> returns, a filename outside the known filenames
  is not a key of the returned map, and the map is the one obtained from the references
  with every reference to that filename left out: such a reference adds an entry to no
  list.
\<close>

theorem unknown_filename_ignored:
  assumes "gather_prompt_usages P r q g m c cp = Inr u"
    and "fn \<notin> P"
  shows "u fn = None
       \<and> u = usage_map P (filter (\<lambda>ref. fst ref \<noteq> JStr fn) (references r q g m c cp))"
proof -
  let ?refs = "references r q g m c cp"
  have u: "u = usage_map P ?refs" using assms(1) by (rule gather_refines)
  have key: "u fn = None"
    using assms(2) by (simp add: u usage_map_def usage_list_not_known)
  have "filter (matches P k) (filter (\<lambda>ref. fst ref \<noteq> JStr fn) ?refs) = filter (matches P k) ?refs"
    for k
  proof -
    have "matches P k ref \<Longrightarrow> fst ref \<noteq> JStr fn" for ref
      using assms(2) by (auto simp: matches_def)
    then show ?thesis by (auto simp: filter_eq_iff intro: filter_cong)
  qed
  then have eq: "usage_list P (filter (\<lambda>ref. fst ref \<noteq> JStr fn) ?refs) = usage_list P ?refs"
    by (intro ext) (simp add: usage_list_def)
  have "usage_map P (filter (\<lambda>ref. fst ref \<noteq> JStr fn) ?refs) = usage_map P ?refs"
    unfolding usage_map_def eq by (rule refl)
  with key u show ?thesis by simp
qed

lemma ghost_run:
  "gather_prompt_usages {''welcome.wav'', ''hold.wav''}
     scenario_receptionists scenario_queues no_entities (JObj []) (JObj []) ghost_call_parking
   = Inr [''welcome.wav'' \<mapsto> [''Receptionist: 100 Main''],
          ''hold.wav'' \<mapsto> [''Queue OnHoldFile: 800 Support'']]"
  unfolding scenario_unfold ghost_call_parking_def
  apply (simp add: gather_unfold)
  apply (rule ext)
  apply simp
  done

theorem unknown_filename_ignored_witness:
  "gather_prompt_usages {''welcome.wav'', ''hold.wav''}
     scenario_receptionists scenario_queues no_entities (JObj []) (JObj []) ghost_call_parking
   = Inr [''welcome.wav'' \<mapsto> [''Receptionist: 100 Main''],
          ''hold.wav'' \<mapsto> [''Queue OnHoldFile: 800 Support'']]
   \<and> ''ghost.wav'' \<notin> {''welcome.wav'', ''hold.wav''}
   \<and> (JStr ''ghost.wav'', ''CallParking: MusicOnHold'')
       \<in> set (references scenario_receptionists scenario_queues no_entities (JObj []) (JObj [])
                 ghost_call_parking)
   \<and> [''welcome.wav'' \<mapsto> [''Receptionist: 100 Main''],
          ''hold.wav'' \<mapsto> [''Queue OnHoldFile: 800 Support'']] ''ghost.wav'' = None"
proof -
  have n: "''ghost.wav'' \<notin> {''welcome.wav'', ''hold.wav''}" by simp
  have r: "(JStr ''ghost.wav'', ''CallParking: MusicOnHold'')
       \<in> set (references scenario_receptionists scenario_queues no_entities (JObj []) (JObj [])
                 ghost_call_parking)"
    by (simp add: references_def call_parking_refs_def ghost_call_parking_def field_def)
  from unknown_filename_ignored[OF ghost_run n]
  have k: "[''welcome.wav'' \<mapsto> [''Receptionist: 100 Main''],
          ''hold.wav'' \<mapsto> [''Queue OnHoldFile: 800 Support'']] ''ghost.wav'' = None"
    by (rule conjunct1)
  from ghost_run n r k show ?thesis by (intro conjI)
qed

text \<open>
  Claim C10. Whenever \<open>gather_prompt_usages\<close> returns, the empty string is not a key of the
  returned map, also when it is one of the known filenames and a field holds it.
\<close>

theorem empty_string_never_key:
  assumes "gather_prompt_usages P r q g m c cp = Inr u"
  shows "u [] = None"
  using gather_refines[OF assms] by (simp add: usage_map_def usage_list_empty_name)

lemma empty_name_run:
  "gather_prompt_usages {[], ''hold.wav''}
     empty_name_receptionists scenario_queues no_entities (JObj []) (JObj []) (JObj [])
   = Inr [''hold.wav'' \<mapsto> [''Queue OnHoldFile: 800 Support'']]"
  unfolding scenario_unfold empty_name_receptionists_def
  apply (simp add: gather_unfold)
  apply (rule ext)
  apply simp
  done

theorem empty_string_never_key_witness:
  "gather_prompt_usages {[], ''hold.wav''}
     empty_name_receptionists scenario_queues no_entities (JObj []) (JObj []) (JObj [])
   = Inr [''hold.wav'' \<mapsto> [''Queue OnHoldFile: 800 Support'']]
   \<and> [] \<in> {[], ''hold.wav''}
   \<and> field (hd (entities empty_name_receptionists)) ''PromptFilename'' = JStr []
   \<and> [''hold.wav'' \<mapsto> [''Queue OnHoldFile: 800 Support'']] [] = None"
proof -
  have f: "field (hd (entities empty_name_receptionists)) ''PromptFilename'' = JStr []"
    by (simp add: empty_name_receptionists_def entities_def elements_def field_def)
  from empty_string_never_key[OF empty_name_run] empty_name_run f show ?thesis by simp
qed

text \<open>
  Claim C6. The first scenario of the specification: with the known filenames
  \<open>welcome.wav\<close> and \<open>hold.wav\<close>, one receptionist (100, Main) whose prompt is
  \<open>welcome.wav\<close> and who has no forwards, one queue (800, Support) whose on-hold file is
  \<open>hold.wav\<close>, and every other collection empty, the resolver returns exactly the map
  that binds \<open>welcome.wav\<close> to the receptionist's description and \<open>hold.wav\<close> to the
  queue's.
\<close>

theorem first_scenario:
  "gather_prompt_usages {''welcome.wav'', ''hold.wav''}
     scenario_receptionists scenario_queues no_entities (JObj []) (JObj []) (JObj [])
   = Inr [''welcome.wav'' \<mapsto> [''Receptionist: 100 Main''],
          ''hold.wav'' \<mapsto> [''Queue OnHoldFile: 800 Support'']]"
  unfolding scenario_unfold
  apply (simp add: gather_unfold)
  apply (rule ext)
  apply simp
  done

lemma usage_list_hit:
  assumes "fn \<noteq> []" and "fn \<in> P"
  shows "usage_list P (xs @ (JStr fn, d) # ys) fn = usage_list P xs fn @ [d] @ usage_list P ys fn"
  using assms by (simp add: usage_list_def matches_def)

text \<open>
  Claim C7. Whenever \<open>gather_prompt_usages\<close> returns, and the \<open>Prompt\<close> of some queue's
  \<open>BreakRoute\<close> and the value of some key of the music-on-hold settings are one known
  filename (\<open>hold.wav\<close> in the scenario), the list bound to that filename holds the
  description of the queue route and, later in the list, the description of the
  music-on-hold setting.
\<close>

theorem queue_route_before_music_on_hold:
  assumes "gather_prompt_usages P r q g m c cp = Inr u"
    and "item \<in> set (entities q)"
    and "field (field item ''BreakRoute'') ''Prompt'' = JStr fn"
    and "m = JObj kvs"
    and "(key, JStr fn) \<in> set kvs"
    and "fn \<in> P"
    and "fn \<noteq> []"
  shows "\<exists>l1 l2 l3. u fn = Some (l1 @ [''Queue route BreakRoute: '' @ label item] @ l2
                                   @ [''MusicOnHold setting ('' @ key @ '')''] @ l3)"
proof -
  let ?d1 = "''Queue route BreakRoute: '' @ label item"
  let ?d2 = "''MusicOnHold setting ('' @ key @ '')''"
  have u: "u = usage_map P (references r q g m c cp)" using assms(1) by (rule gather_refines)
  from assms(2) obtain xs ys where q: "entities q = xs @ item # ys"
    by (auto simp: in_set_conv_decomp)
  obtain a b where item_refs: "queue_refs item = a @ (JStr fn, ?d1) # b"
  proof
    show "queue_refs item =
        (map (\<lambda>key. (field item key, ''Queue '' @ key @ '': '' @ label item))
           [''IntroFile'', ''OnHoldFile'', ''GreetingFile'']
         @ [(field (field item ''OutOfOfficeRoute'') ''Prompt'',
             ''Queue route OutOfOfficeRoute: '' @ label item)])
        @ (JStr fn, ?d1)
        # [(field (field item ''HolidaysRoute'') ''Prompt'',
             ''Queue route HolidaysRoute: '' @ label item)]"
      using assms(3) by (simp add: queue_refs_def route_refs_def)
  qed
  from assms(5) obtain ks1 ks2 where kvs: "kvs = ks1 @ (key, JStr fn) # ks2"
    by (auto simp: in_set_conv_decomp)
  obtain e f where moh: "moh_refs m = e @ (JStr fn, ?d2) # f"
  proof
    show "moh_refs m =
        map (\<lambda>kv. (snd kv, ''MusicOnHold setting ('' @ fst kv @ '')'')) ks1
        @ (JStr fn, ?d2)
        # map (\<lambda>kv. (snd kv, ''MusicOnHold setting ('' @ fst kv @ '')'')) ks2"
      using assms(4) kvs by (simp add: moh_refs_def)
  qed
  let ?A = "concat (map receptionist_refs (entities r)) @ concat (map queue_refs xs) @ a"
  let ?B = "b @ concat (map queue_refs ys) @ concat (map group_refs (entities g)) @ e"
  let ?C = "f @ conference_refs c @ call_parking_refs cp"
  have "references r q g m c cp = ?A @ (JStr fn, ?d1) # (?B @ (JStr fn, ?d2) # ?C)"
    by (simp add: references_def q item_refs moh)
  then have "usage_list P (references r q g m c cp) fn
      = usage_list P ?A fn @ [?d1] @ usage_list P ?B fn @ [?d2] @ usage_list P ?C fn"
    by (simp only: usage_list_hit[OF assms(7) assms(6)])
  then have "u fn = Some (usage_list P ?A fn @ [?d1] @ usage_list P ?B fn @ [?d2]
                           @ usage_list P ?C fn)"
    by (simp add: u usage_map_def)
  then show ?thesis by blast
qed

lemma break_route_run:
  "gather_prompt_usages {''welcome.wav'', ''hold.wav''}
     no_entities break_route_queues no_entities scenario_music_on_hold (JObj []) (JObj [])
   = Inr [''hold.wav'' \<mapsto> [''Queue route BreakRoute: 800 Support'',
                              ''MusicOnHold setting (MusicOnHold3)'']]"
  unfolding scenario_unfold
  apply (simp add: gather_unfold)
  apply (rule ext)
  apply simp
  done

theorem queue_route_before_music_on_hold_witness:
  "gather_prompt_usages {''welcome.wav'', ''hold.wav''}
     no_entities break_route_queues no_entities scenario_music_on_hold (JObj []) (JObj [])
   = Inr [''hold.wav'' \<mapsto> [''Queue route BreakRoute: 800 Support'',
                              ''MusicOnHold setting (MusicOnHold3)'']]
   \<and> hd (entities break_route_queues) \<in> set (entities break_route_queues)
   \<and> field (field (hd (entities break_route_queues)) ''BreakRoute'') ''Prompt'' = JStr ''hold.wav''
   \<and> (''MusicOnHold3'', JStr ''hold.wav'') \<in> set [(''MusicOnHold0'', JNull), (''MusicOnHold3'', JStr ''hold.wav'')]
   \<and> (\<exists>l1 l2 l3. [''hold.wav'' \<mapsto> [''Queue route BreakRoute: 800 Support'',
                              ''MusicOnHold setting (MusicOnHold3)'']] ''hold.wav''
         = Some (l1 @ [''Queue route BreakRoute: '' @ label (hd (entities break_route_queues))] @ l2
                    @ [''MusicOnHold setting ('' @ ''MusicOnHold3'' @ '')''] @ l3))"
proof -
  have i: "hd (entities break_route_queues) \<in> set (entities break_route_queues)"
    by (simp add: break_route_queues_def entities_def elements_def field_def)
  have p: "field (field (hd (entities break_route_queues)) ''BreakRoute'') ''Prompt'' = JStr ''hold.wav''"
    by (simp add: break_route_queues_def entities_def elements_def field_def)
  have k: "(''MusicOnHold3'', JStr ''hold.wav'') \<in> set [(''MusicOnHold0'', JNull), (''MusicOnHold3'', JStr ''hold.wav'')]"
    by simp
  have known: "''hold.wav'' \<in> {''welcome.wav'', ''hold.wav''}" and ne: "''hold.wav'' \<noteq> []"
    by simp_all
  note concl = queue_route_before_music_on_hold[OF break_route_run i p scenario_music_on_hold_def k known ne]
  from break_route_run i p k concl show ?thesis by (intro conjI)
qed

subsection \<open>Missing fields and missing collections\<close>

text \<open>
  Claim C3. A missing field (absent key, null, empty string, a null \<open>Forwards\<close> list or a
  null route) is to count as no reference and never to raise. The code does so for every
  one of them but the null \<open>Forwards\<close> list: \<open>item.get("Forwards", [])\<close> returns \<open>None\<close>,
  which the \<open>for\<close> loop cannot iterate, and the resolver raises \<open>TypeError\<close> whatever the
  other inputs are.
\<close>

theorem null_forwards_raises:
  "gather_prompt_usages P null_forwards_receptionists q g m c cp = Inl TypeError"
  by (simp add: null_forwards_receptionists_def gather_unfold)

text \<open>The sibling access, a null route, is tolerated.\<close>

lemma null_route_tolerated:
  "route_step kind P (JObj [(rkey, JNull)]) u rkey = Inr u"
  by (simp add: route_step_def py_or_def bindE_def add_if_known_def)

text \<open>The list of a collection has the same gap: a null \<open>value\<close> cannot be iterated.\<close>

lemma null_value_raises:
  "gather_prompt_usages P (JObj [(''value'', JNull)]) q g m c cp = Inl TypeError"
  by (simp add: gather_unfold)

lemma absent_no_conference_match:
  "absent_or_empty x \<Longrightarrow> usage_list P (conference_refs x) fn = []"
  unfolding conference_refs_def by (rule absent_no_setting_match)

lemma absent_no_call_parking_match:
  "absent_or_empty x \<Longrightarrow> usage_list P (call_parking_refs x) fn = []"
  unfolding call_parking_refs_def by (rule absent_no_setting_match)

lemma scan_collection_absent:
  "absent_or_empty x \<Longrightarrow> scan_collection body x u = Inr u"
  by (auto simp: absent_or_empty_def scan_collection_def py_or_def bindE_def)

lemma scan_as_collection:
  "scan_collection body (as_collection x) u = scan_collection body x u"
proof (cases "absent_or_empty x")
  case True
  then have "absent_or_empty (as_collection x)"
    by (simp add: as_collection_def absent_or_empty_def)
  with True show ?thesis by (simp add: scan_collection_absent)
next
  case False
  then show ?thesis by (simp add: as_collection_def)
qed

lemma scan_moh_absent:
  "absent_or_empty x \<Longrightarrow>
     bindE (dict_items (py_or x (JObj []))) (\<lambda>items. bindE (foldE (moh_step P) u items) k) = k u"
  by (auto simp: absent_or_empty_def py_or_def bindE_def moh_step_def add_if_known_def)

lemma scan_moh_as_settings:
  "bindE (dict_items (py_or (as_settings x) (JObj []))) (\<lambda>items. bindE (foldE (moh_step P) u items) k)
   = bindE (dict_items (py_or x (JObj []))) (\<lambda>items. bindE (foldE (moh_step P) u items) k)"
proof (cases "absent_or_empty x")
  case True
  then have "absent_or_empty (as_settings x)"
    by (simp add: as_settings_def absent_or_empty_def)
  with True show ?thesis by (simp add: scan_moh_absent)
next
  case False
  then show ?thesis by (simp add: as_settings_def)
qed

lemma scan_setting_absent:
  "absent_or_empty x \<Longrightarrow> scan_setting P text x u = Inr u"
  by (auto simp: absent_or_empty_def scan_setting_def py_or_def bindE_def add_if_known_def)

lemma scan_setting_as_settings:
  "scan_setting P text (as_settings x) u = scan_setting P text x u"
proof (cases "absent_or_empty x")
  case True
  then have "absent_or_empty (as_settings x)"
    by (simp add: as_settings_def absent_or_empty_def)
  with True show ?thesis by (simp add: scan_setting_absent)
next
  case False
  then show ?thesis by (simp add: as_settings_def)
qed

lemma gather_as_present:
  "gather_prompt_usages P (as_collection r) (as_collection q) (as_collection g)
      (as_settings m) (as_settings c) (as_settings cp)
   = gather_prompt_usages P r q g m c cp"
  unfolding gather_prompt_usages_def scan_as_collection scan_moh_as_settings
    scan_setting_as_settings
  by (rule refl)

text \<open>
  Claim C4. For every set of known filenames, when each of the six collections is absent
  (\<open>None\<close>), empty, or of the shape the resolver accepts, the resolver raises nothing and
  returns a valid map: the map of the references of the collections that are there, with
  keys among the known filenames and no empty list. An absent or empty collection counts
  as one with zero entities: the call is the call with such a collection in its place,
  and when all six are absent or empty the map returned is the empty map.
\<close>

theorem absent_collections_tolerated:
  assumes "absent_or_empty r \<or> collection_ok receptionist_ok r"
    and "absent_or_empty q \<or> collection_ok queue_ok q"
    and "absent_or_empty g \<or> collection_ok group_ok g"
    and "absent_or_empty m \<or> moh_ok m"
    and "absent_or_empty c \<or> setting_ok c"
    and "absent_or_empty cp \<or> setting_ok cp"
  shows "(\<exists>u. gather_prompt_usages P r q g m c cp = Inr u
            \<and> u = usage_map P (references r q g m c cp)
            \<and> dom u \<subseteq> P
            \<and> (\<forall>fn. u fn \<noteq> Some []))
       \<and> gather_prompt_usages P r q g m c cp
           = gather_prompt_usages P (as_collection r) (as_collection q) (as_collection g)
               (as_settings m) (as_settings c) (as_settings cp)
       \<and> (absent_or_empty r \<longrightarrow> entities r = [])
       \<and> (absent_or_empty q \<longrightarrow> entities q = [])
       \<and> (absent_or_empty g \<longrightarrow> entities g = [])
       \<and> (absent_or_empty r \<and> absent_or_empty q \<and> absent_or_empty g \<and> absent_or_empty m
            \<and> absent_or_empty c \<and> absent_or_empty cp
          \<longrightarrow> gather_prompt_usages P r q g m c cp = Inr Map.empty)"
proof -
  from assms have ok: "collection_ok receptionist_ok r" "collection_ok queue_ok q"
    "collection_ok group_ok g" "moh_ok m" "setting_ok c" "setting_ok cp"
    by (auto intro: absent_collection_ok absent_moh_ok absent_setting_ok)
  from gather_total[OF ok] obtain u where u: "gather_prompt_usages P r q g m c cp = Inr u"
    by blast
  have refines: "u = usage_map P (references r q g m c cp)" by (rule gather_refines[OF u])
  have keys: "dom u \<subseteq> P"
    unfolding refines usage_map_def dom_def
    using usage_list_not_known[of _ P "references r q g m c cp"] by auto
  have nonempty: "\<forall>fn. u fn \<noteq> Some []" unfolding refines usage_map_def by simp
  have "u = Map.empty"
    if a: "absent_or_empty r" "absent_or_empty q" "absent_or_empty g" "absent_or_empty m"
      "absent_or_empty c" "absent_or_empty cp"
  proof (rule ext)
    fix fn
    have "usage_list P (references r q g m c cp) fn = []"
      using a
      by (simp add: references_def usage_list_append absent_no_entities absent_no_moh_match
            absent_no_conference_match absent_no_call_parking_match)
    then show "u fn = None" by (simp add: refines usage_map_def)
  qed
  with u refines keys nonempty gather_as_present[of P r q g m c cp] absent_no_entities
  show ?thesis by auto
qed

lemma mixed_absent_run:
  "gather_prompt_usages {''welcome.wav'', ''hold.wav''}
     JNull scenario_queues (JObj []) JNull no_entities JNull
   = Inr [''hold.wav'' \<mapsto> [''Queue OnHoldFile: 800 Support'']]"
  unfolding scenario_unfold
  apply (simp add: gather_unfold)
  apply (rule ext)
  apply simp
  done

lemma mixed_as_present:
  "as_collection JNull = no_entities" "as_collection scenario_queues = scenario_queues"
  "as_collection (JObj []) = no_entities" "as_settings JNull = JObj []"
  "as_settings no_entities = JObj []"
  by (simp_all add: as_collection_def as_settings_def absent_or_empty_def no_entities_def
        scenario_queues_def)

theorem absent_collections_tolerated_witness:
  "absent_or_empty JNull \<and> collection_ok queue_ok scenario_queues \<and> absent_or_empty (JObj [])
   \<and> absent_or_empty no_entities
   \<and> gather_prompt_usages {''welcome.wav'', ''hold.wav''}
        JNull scenario_queues (JObj []) JNull no_entities JNull
       = Inr [''hold.wav'' \<mapsto> [''Queue OnHoldFile: 800 Support'']]
   \<and> [''hold.wav'' \<mapsto> [''Queue OnHoldFile: 800 Support'']]
       = usage_map {''welcome.wav'', ''hold.wav''}
           (references JNull scenario_queues (JObj []) JNull no_entities JNull)
   \<and> gather_prompt_usages {''welcome.wav'', ''hold.wav''}
        no_entities scenario_queues no_entities (JObj []) (JObj []) (JObj [])
       = Inr [''hold.wav'' \<mapsto> [''Queue OnHoldFile: 800 Support'']]
   \<and> gather_prompt_usages {''welcome.wav'', ''hold.wav''} JNull JNull (JObj []) JNull no_entities JNull
       = Inr Map.empty"
proof -
  let ?P = "{''welcome.wav'', ''hold.wav''}"
  have n: "absent_or_empty JNull" and e: "absent_or_empty (JObj [])"
    and v: "absent_or_empty no_entities"
    by (simp_all add: absent_or_empty_def no_entities_def)
  have s: "collection_ok queue_ok scenario_queues"
    by (simp add: scenario_queues_def ok_unfold)
  note mixed = absent_collections_tolerated[of JNull scenario_queues "JObj []" JNull no_entities
      JNull ?P, OF disjI1[OF n] disjI2[OF s] disjI1[OF e] disjI1[OF n] disjI1[OF v] disjI1[OF n]]
  from mixed mixed_absent_run have refs:
    "[''hold.wav'' \<mapsto> [''Queue OnHoldFile: 800 Support'']]
       = usage_map ?P (references JNull scenario_queues (JObj []) JNull no_entities JNull)"
    by auto
  from mixed have "gather_prompt_usages ?P JNull scenario_queues (JObj []) JNull no_entities JNull
      = gather_prompt_usages ?P (as_collection JNull) (as_collection scenario_queues)
          (as_collection (JObj [])) (as_settings JNull) (as_settings no_entities)
          (as_settings JNull)"
    by blast
  then have present:
    "gather_prompt_usages ?P no_entities scenario_queues no_entities (JObj []) (JObj []) (JObj [])
       = Inr [''hold.wav'' \<mapsto> [''Queue OnHoldFile: 800 Support'']]"
    unfolding mixed_as_present mixed_absent_run by (rule sym)
  have none: "gather_prompt_usages ?P JNull JNull (JObj []) JNull no_entities JNull = Inr Map.empty"
    using absent_collections_tolerated[of JNull JNull "JObj []" JNull no_entities JNull ?P] n e v
    by blast
  from n s e v mixed_absent_run refs present none show ?thesis by blast
qed

subsection \<open>The cache short-circuits the remote fetch\<close>

lemma cache_path: "path_join ''output'' ''custom_prompts.json'' = ''output/custom_prompts.json''"
  by (simp add: path_join_def)

lemma offline_no_network_calls:
  assumes "offline m"
  shows "network_calls (trace_of m) = []"
proof -
  from assms obtain new where "fst (m []) = [] @ new" and "network_calls new = []"
    unfolding offline_def by blast
  then show ?thesis by (simp add: trace_of_def)
qed

text \<open>
  \<open>APIClient\<close> returns a client when the token, its leading \<open>Bearer\<close> cut, is ASCII and the
  transport can be built, and raises otherwise.
\<close>

lemma APIClient_returns:
  assumes "\<not> list_ex (\<lambda>c. 128 \<le> (of_char c :: nat)) (if take 7 tok = ''Bearer '' then drop 7 tok else tok)"
    and "new_transport w = Inr ()"
  shows "\<exists>client. APIClient w tok host = Inr client"
  using assms by (simp add: APIClient_def Let_def bindE_def)

lemma APIClient_raises:
  assumes "list_ex (\<lambda>c. 128 \<le> (of_char c :: nat)) (if take 7 tok = ''Bearer '' then drop 7 tok else tok)"
  shows "APIClient w tok host = Inl UnicodeEncodeError"
  using assms by (simp add: APIClient_def Let_def)

lemma cached_world_has_cache:
  "is_dir cached_world ''output'' \<and> path_exists cached_world ''output/custom_prompts.json''"
  by (simp add: cached_world_def)

lemma fresh_world_has_no_cache:
  "\<not> (is_dir fresh_world ''output'' \<and> path_exists fresh_world ''output/custom_prompts.json'')"
  by (simp add: fresh_world_def)

lemma latin_world_has_no_cache:
  "\<not> (is_dir latin_world ''output'' \<and> path_exists latin_world ''output/custom_prompts.json'')"
  by (simp add: latin_world_def)

lemma fresh_world_client:
  "APIClient fresh_world (case environ fresh_world ''BEARER_TOKEN'' of Some t \<Rightarrow> t | None \<Rightarrow> [])
      (environ fresh_world ''FQDN'')
   = Inr \<lparr> token = ''abc'', fqdn = ''https://pbx.example.com'' \<rparr>"
  by (simp add: fresh_world_def APIClient_def bindE_def)

lemma latin_world_client:
  "APIClient latin_world (case environ latin_world ''BEARER_TOKEN'' of Some t \<Rightarrow> t | None \<Rightarrow> [])
      (environ latin_world ''FQDN'')
   = Inl UnicodeEncodeError"
  by (simp add: latin_world_def APIClient_def)

text \<open>
  Claim C9, as the specification states it: when the directory \<open>output\<close> exists and holds
  \<open>custom_prompts.json\<close> the run is the report from the cache and makes no request to the
  remote API; otherwise \<open>main\<close> constructs an API client and fetches live. The second half
  fails where the client cannot be constructed. In the world below there is no cache and the
  token of the environment holds a character that is not ASCII: \<open>APIClient\<close> raises
  \<open>UnicodeEncodeError\<close>, no client exists, and the run ends with that exception having
  made no request and no other call.
\<close>

theorem non_ascii_token_no_fetch:
  "\<not> (is_dir latin_world ''output'' \<and> path_exists latin_world ''output/custom_prompts.json'')
   \<and> environ latin_world ''BEARER_TOKEN'' = Some [CHR ''t'', CHR 0xE9]
   \<and> APIClient latin_world [CHR ''t'', CHR 0xE9] (environ latin_world ''FQDN'') = Inl UnicodeEncodeError
   \<and> main latin_world [] = ([], Inl UnicodeEncodeError)
   \<and> network_calls (trace_of (main latin_world)) = []"
  by (simp add: latin_world_def APIClient_def main_def cache_path Let_def bindIO_def liftE_def
      trace_of_def network_calls_def)

text \<open>
  Claim C9, amended. When the directory \<open>output\<close> exists and holds \<open>custom_prompts.json\<close>,
  \<open>main\<close> is the report from the cache and its run makes no request to the remote API.
  Otherwise \<open>main\<close> constructs the API client from the environment; when the construction
  returns a client, \<open>main\<close> is the report from the API with that client, whose run begins
  with the request for the custom prompts; when the construction raises, the run ends with
  that exception and has done nothing before it.
\<close>

theorem cache_short_circuits_fetch:
  "(is_dir w ''output'' \<and> path_exists w ''output/custom_prompts.json'' \<longrightarrow>
      main w = report_from_output w ''output''
      \<and> network_calls (trace_of (main w)) = [])
   \<and> (\<not> (is_dir w ''output'' \<and> path_exists w ''output/custom_prompts.json'') \<longrightarrow>
      (\<forall>client.
          APIClient w (case environ w ''BEARER_TOKEN'' of Some t \<Rightarrow> t | None \<Rightarrow> [])
            (environ w ''FQDN'') = Inr client \<longrightarrow>
          main w = report_from_api w client
          \<and> (\<exists>rest. trace_of (main w)
                = HttpGet (fqdn client @ ''/xapi/v1/CustomPrompts'') [(''$select'', ''DisplayName'')]
                  # rest))
      \<and> (\<forall>e.
          APIClient w (case environ w ''BEARER_TOKEN'' of Some t \<Rightarrow> t | None \<Rightarrow> [])
            (environ w ''FQDN'') = Inl e \<longrightarrow>
          main w [] = ([], Inl e)))"
proof (intro conjI impI allI)
  assume cached: "is_dir w ''output'' \<and> path_exists w ''output/custom_prompts.json''"
  then show m: "main w = report_from_output w ''output''"
    by (simp add: main_def cache_path)
  show "network_calls (trace_of (main w)) = []"
    unfolding m by (rule offline_no_network_calls[OF offline_report_from_output])
next
  fix client
  assume "\<not> (is_dir w ''output'' \<and> path_exists w ''output/custom_prompts.json'')"
    and "APIClient w (case environ w ''BEARER_TOKEN'' of Some t \<Rightarrow> t | None \<Rightarrow> [])
            (environ w ''FQDN'') = Inr client"
  then show m: "main w = report_from_api w client"
    by (auto simp: main_def cache_path Let_def bindIO_def liftE_def)
  show "\<exists>rest. trace_of (main w)
          = HttpGet (fqdn client @ ''/xapi/v1/CustomPrompts'') [(''$select'', ''DisplayName'')] # rest"
    unfolding m by (rule report_from_api_first_request)
next
  fix e
  assume "\<not> (is_dir w ''output'' \<and> path_exists w ''output/custom_prompts.json'')"
    and "APIClient w (case environ w ''BEARER_TOKEN'' of Some t \<Rightarrow> t | None \<Rightarrow> [])
            (environ w ''FQDN'') = Inl e"
  then show "main w [] = ([], Inl e)"
    by (auto simp: main_def cache_path Let_def bindIO_def liftE_def)
qed

theorem cache_short_circuits_fetch_witness:
  "(is_dir cached_world ''output'' \<and> path_exists cached_world ''output/custom_prompts.json'')
   \<and> main cached_world = report_from_output cached_world ''output''
   \<and> network_calls (trace_of (main cached_world)) = []
   \<and> \<not> (is_dir fresh_world ''output'' \<and> path_exists fresh_world ''output/custom_prompts.json'')
   \<and> main fresh_world = report_from_api fresh_world \<lparr> token = ''abc'', fqdn = ''https://pbx.example.com'' \<rparr>
   \<and> (\<exists>rest. trace_of (main fresh_world)
         = HttpGet ''https://pbx.example.com/xapi/v1/CustomPrompts'' [(''$select'', ''DisplayName'')]
           # rest)
   \<and> \<not> (is_dir latin_world ''output'' \<and> path_exists latin_world ''output/custom_prompts.json'')
   \<and> main latin_world [] = ([], Inl UnicodeEncodeError)"
proof -
  note c = cache_short_circuits_fetch[of cached_world, THEN conjunct1, rule_format,
      OF cached_world_has_cache]
  note f = cache_short_circuits_fetch[of fresh_world, THEN conjunct2, rule_format,
      OF fresh_world_has_no_cache, THEN conjunct1, rule_format, OF fresh_world_client]
  note l = cache_short_circuits_fetch[of latin_world, THEN conjunct2, rule_format,
      OF latin_world_has_no_cache, THEN conjunct2, rule_format, OF latin_world_client]
  have f1: "main fresh_world
      = report_from_api fresh_world \<lparr> token = ''abc'', fqdn = ''https://pbx.example.com'' \<rparr>"
    by (rule f[THEN conjunct1])
  have f2: "\<exists>rest. trace_of (main fresh_world)
         = HttpGet ''https://pbx.example.com/xapi/v1/CustomPrompts'' [(''$select'', ''DisplayName'')]
           # rest"
    using f[THEN conjunct2] by simp
  from cached_world_has_cache c[THEN conjunct1] c[THEN conjunct2] fresh_world_has_no_cache f1 f2
    latin_world_has_no_cache l
  show ?thesis by blast
qed

lemma cached_run:
  "main cached_world []
   = ([FileRead ''output/custom_prompts.json'', Print ''No prompt files in use were found.''],
      Inr ())"
  by (simp add: main_def cache_path cached_world_def report_from_output_def ld_def
      load_json_file_def path_join_def bindIO_def thenIO_def emit_def liftE_def returnIO_def
      py_or_def no_entities_def resolve_and_print_def prompt_filenames_of_def prompt_name_step_def
      py_in_keys_def bindE_def gather_prompt_usages_any_def scan_collection_def
      scan_setting_any_def add_if_known_any_def print_report_def)

lemma fresh_run:
  "snd (main fresh_world []) = Inr ()
   \<and> length (network_calls (trace_of (main fresh_world))) = 11"
  by (simp add: trace_of_def main_def cache_path fresh_world_def APIClient_def report_from_api_def
      custom_prompts_def receptionists_def queues_def groups_def playlists_def
      conference_settings_def music_on_hold_settings_def call_parking_settings_def
      call_flow_apps_def print_call_flow_apps_def api_get_def dump_def
      bindIO_def thenIO_def emit_def liftE_def returnIO_def Let_def
      py_or_def no_entities_def resolve_and_print_def prompt_filenames_of_def prompt_name_step_def
      py_in_keys_def bindE_def gather_prompt_usages_any_def scan_collection_def
      scan_setting_any_def add_if_known_any_def moh_step_any_def print_report_def
      network_calls_def)

text \<open>
  A display name that is a number is a known name like any other: a field that holds the
  number, or a number equal to it, is reported under it.
\<close>

lemma dec_5: "dec 5 = ''5''"
  by code_simp

lemma numeric_name_kept:
  "prompt_filenames_of
     (JObj [(''value'', JArr [JObj [(''DisplayName'', JInt 5)], JObj [(''DisplayName'', JStr '''')],
                              JObj [(''DisplayName'', JFloat 5 ''5.0'')]])])
   = Inr [JInt 5]"
  by (simp add: prompt_filenames_of_def prompt_name_step_def py_in_keys_def py_eq_def num_val_def
      bindE_def)

lemma numeric_name_reported:
  "resolve_and_print
     (JObj [(''value'', JArr [JObj [(''DisplayName'', JInt 5)]])])
     (JObj [(''value'', JArr [JObj [(''Number'', JStr ''100''), (''Name'', JStr ''Main''),
                                    (''PromptFilename'', JFloat 5 ''5.0'')]])])
     JNull JNull JNull JNull JNull []
   = ([Print ''Detailed list of used prompt filenames:'',
       Print (CHR 0x0A # ''5:''),
       Print ''  - Receptionist: 100 Main'',
       Print (CHR 0x0A # ''Used prompt filenames:''),
       Print '' - 5''],
      Inr ())"
  by (simp add: resolve_and_print_def prompt_filenames_of_def prompt_name_step_def py_in_keys_def
      py_eq_def num_val_def bindE_def bindIO_def thenIO_def emit_def liftE_def returnIO_def
      gather_prompt_usages_any_def scan_collection_def receptionist_step_any_def
      forward_step_any_def scan_setting_any_def add_if_known_any_def add_any_def describe_def
      py_or_def print_report_def sorted_names_def entries_of_def dec_5)

subsection \<open>The resolver changes no object it was given\<close>

lemmas store_unfold = gather_store_def scan_collection_store_def scan_moh_store_def
  scan_setting_store_def receptionist_step_store_def forward_step_store_def queue_step_store_def
  file_key_step_store_def route_step_store_def group_step_store_def moh_step_store_def
  add_if_known_store_def add_store_def filter_usages_def new_usages_def names_at_def coll_at_def
  cell_at_def nonempty_at_def at_store_def describe_def bindE_def py_or_def queue_file_keys_def
  route_keys_def group_route_keys_def

lemma names_at_extension:
  assumes "take (length h) h' = h" and "names_at h a = Inr ns"
  shows "names_at h' a = Inr ns"
  using cell_at_extension[OF assms(1) names_at_less[OF assms(2)]] assms(2)
  by (simp add: names_at_def)

lemma coll_at_extension:
  assumes "take (length h) h' = h" and "coll_at h a = Inr x"
  shows "coll_at h' a = Inr x"
  using cell_at_extension[OF assms(1) coll_at_less[OF assms(2)]] assms(2)
  by (simp add: coll_at_def)

lemma take_take_extension:
  assumes "take (length h) h1 = h" and "take (length h1) h2 = h1"
  shows "take (length h) h2 = h"
proof -
  from assms(1) have "length h \<le> length h1" by (metis length_take min.cobounded1)
  then have "take (length h) h2 = take (length h) (take (length h1) h2)"
    by (simp add: min_def)
  with assms show ?thesis by simp
qed

text \<open>
  Claim C8. Whatever a call of the resolver does, return or raise, it leaves every object
  that was in the store at the call as it was, the known filenames and the six collections
  among them. When it returns, the map it returns is the one the functional model computes
  from the arguments alone, and a second call with the same arguments returns the same map
  and leaves the first result as it was. When it raises, the functional model raises the
  same error, and so does a second call.
\<close>

theorem resolver_is_pure:
  assumes n: "names_at h pa = Inr ns"
    and r: "coll_at h ra = Inr r" and q: "coll_at h qa = Inr q" and g: "coll_at h ga = Inr g"
    and m: "coll_at h ma = Inr m" and c: "coll_at h ca = Inr c" and cp: "coll_at h cpa = Inr cp"
  shows "(\<forall>h1 res. gather_store h pa ra qa ga ma ca cpa = Inr (h1, res) \<longrightarrow>
            take (length h) h1 = h
          \<and> gather_prompt_usages (set ns) r q g m c cp = Inr (usage_map_at h1 res)
          \<and> (\<exists>h2 res2. gather_store h1 pa ra qa ga ma ca cpa = Inr (h2, res2)
                \<and> usage_map_at h2 res2 = usage_map_at h1 res
                \<and> usage_map_at h2 res = usage_map_at h1 res
                \<and> take (length h) h2 = h))
       \<and> (\<forall>e h1. gather_store h pa ra qa ga ma ca cpa = Inl (e, h1) \<longrightarrow>
            take (length h) h1 = h
          \<and> gather_prompt_usages (set ns) r q g m c cp = Inl e
          \<and> (\<exists>h2. gather_store h1 pa ra qa ga ma ca cpa = Inl (e, h2)
                \<and> take (length h) h2 = h))"
proof (intro conjI allI impI)
  fix h1 res
  assume run: "gather_store h pa ra qa ga ma ca cpa = Inr (h1, res)"
  from gather_store_sim[OF n r q g m c cp] run obtain u where
    pure: "gather_prompt_usages (set ns) r q g m c cp = Inr u" and a: "agrees h (h1, res) u"
    by (cases "gather_prompt_usages (set ns) r q g m c cp") simp_all
  from a have old: "take (length h) h1 = h"
    and stable: "\<And>h''. take (length h1) h'' = h1 \<Longrightarrow> usage_map_at h'' res = u"
    by (simp_all add: agrees_def)
  from stable[of h1] have first: "usage_map_at h1 res = u" by simp
  note args = names_at_extension[OF old n] coll_at_extension[OF old r]
    coll_at_extension[OF old q] coll_at_extension[OF old g] coll_at_extension[OF old m]
    coll_at_extension[OF old c] coll_at_extension[OF old cp]
  from gather_store_sim[OF args] pure obtain h2 res2 where
    again: "gather_store h1 pa ra qa ga ma ca cpa = Inr (h2, res2)"
    and a2: "agrees h1 (h2, res2) u"
    by (cases "gather_store h1 pa ra qa ga ma ca cpa") auto
  from a2 have old2: "take (length h1) h2 = h1"
    and stable2: "\<And>h''. take (length h2) h'' = h2 \<Longrightarrow> usage_map_at h'' res2 = u"
    by (simp_all add: agrees_def)
  from stable2[of h2] have second: "usage_map_at h2 res2 = u" by simp
  from stable[OF old2] have kept: "usage_map_at h2 res = u" .
  from take_take_extension[OF old old2] have args_kept: "take (length h) h2 = h" .
  show "take (length h) h1 = h" by (rule old)
  show "gather_prompt_usages (set ns) r q g m c cp = Inr (usage_map_at h1 res)"
    using pure first by simp
  show "\<exists>h2 res2. gather_store h1 pa ra qa ga ma ca cpa = Inr (h2, res2)
          \<and> usage_map_at h2 res2 = usage_map_at h1 res
          \<and> usage_map_at h2 res = usage_map_at h1 res
          \<and> take (length h) h2 = h"
    using again second kept args_kept first by auto
next
  fix e h1
  assume run: "gather_store h pa ra qa ga ma ca cpa = Inl (e, h1)"
  from gather_store_sim[OF n r q g m c cp] run have
    pure: "gather_prompt_usages (set ns) r q g m c cp = Inl e" and old: "take (length h) h1 = h"
    by (cases "gather_prompt_usages (set ns) r q g m c cp"; simp add: same_error_def)+
  note args = names_at_extension[OF old n] coll_at_extension[OF old r]
    coll_at_extension[OF old q] coll_at_extension[OF old g] coll_at_extension[OF old m]
    coll_at_extension[OF old c] coll_at_extension[OF old cp]
  from gather_store_sim[OF args] pure obtain h2 where
    again: "gather_store h1 pa ra qa ga ma ca cpa = Inl (e, h2)"
    and old2: "take (length h1) h2 = h1"
    by (cases "gather_store h1 pa ra qa ga ma ca cpa") (auto simp: same_error_def)
  from take_take_extension[OF old old2] have args_kept: "take (length h) h2 = h" .
  show "take (length h) h1 = h" by (rule old)
  show "gather_prompt_usages (set ns) r q g m c cp = Inl e" by (rule pure)
  show "\<exists>h2. gather_store h1 pa ra qa ga ma ca cpa = Inl (e, h2) \<and> take (length h) h2 = h"
    using again args_kept by blast
qed

lemma scenario_store_run:
  "gather_store scenario_store 0 1 2 3 4 5 5 = Inr (scenario_store_after, 9)"
  unfolding scenario_store_after_def scenario_store_def scenario_unfold
  by (simp add: store_unfold nth_append eval_nat_numeral)

lemma null_forwards_store_run:
  "gather_store null_forwards_store 0 1 1 1 1 1 1 = Inl (TypeError, null_forwards_store_after)"
  unfolding null_forwards_store_after_def null_forwards_store_def null_forwards_receptionists_def
  by (simp add: store_unfold nth_append eval_nat_numeral)

theorem resolver_is_pure_witness:
  "names_at scenario_store 0 = Inr [''welcome.wav'', ''hold.wav'']
   \<and> coll_at scenario_store 1 = Inr scenario_receptionists
   \<and> coll_at scenario_store 5 = Inr JNull
   \<and> gather_store scenario_store 0 1 2 3 4 5 5 = Inr (scenario_store_after, 9)
   \<and> take (length scenario_store) scenario_store_after = scenario_store
   \<and> gather_prompt_usages (set [''welcome.wav'', ''hold.wav''])
        scenario_receptionists scenario_queues no_entities (JObj []) JNull JNull
       = Inr (usage_map_at scenario_store_after 9)
   \<and> (\<exists>h2 res2. gather_store scenario_store_after 0 1 2 3 4 5 5 = Inr (h2, res2)
         \<and> usage_map_at h2 res2 = usage_map_at scenario_store_after 9
         \<and> usage_map_at h2 9 = usage_map_at scenario_store_after 9
         \<and> take (length scenario_store) h2 = scenario_store)
   \<and> gather_store null_forwards_store 0 1 1 1 1 1 1 = Inl (TypeError, null_forwards_store_after)
   \<and> take (length null_forwards_store) null_forwards_store_after = null_forwards_store
   \<and> (\<exists>h2. gather_store null_forwards_store_after 0 1 1 1 1 1 1 = Inl (TypeError, h2)
         \<and> take (length null_forwards_store) h2 = null_forwards_store)"
proof -
  have n: "names_at scenario_store 0 = Inr [''welcome.wav'', ''hold.wav'']"
    by (simp add: scenario_store_def names_at_def cell_at_def)
  have r: "coll_at scenario_store 1 = Inr scenario_receptionists"
    and q: "coll_at scenario_store 2 = Inr scenario_queues"
    and g: "coll_at scenario_store 3 = Inr no_entities"
    and m: "coll_at scenario_store 4 = Inr (JObj [])"
    and c: "coll_at scenario_store 5 = Inr JNull"
    by (simp_all add: scenario_store_def coll_at_def cell_at_def)
  note returns = resolver_is_pure[OF n r q g m c c, THEN conjunct1, rule_format,
      OF scenario_store_run]
  have n': "names_at null_forwards_store 0 = Inr [''welcome.wav'']"
    by (simp add: null_forwards_store_def names_at_def cell_at_def)
  have r': "coll_at null_forwards_store 1 = Inr null_forwards_receptionists"
    by (simp add: null_forwards_store_def coll_at_def cell_at_def)
  note raises = resolver_is_pure[OF n' r' r' r' r' r' r', THEN conjunct2, rule_format,
      OF null_forwards_store_run]
  from n r c scenario_store_run returns null_forwards_store_run raises show ?thesis by blast
qed

end
